theory Spec2Isabelle
  imports Complex_Main
begin

section \<open>Strings and regular expressions of the runtime\<close>

text \<open>
  A JavaScript string is a sequence of 16-bit code units; the model keeps each code unit
  as a natural number. The regular expressions of \<^verbatim>\<open>strings.ts\<close> carry no \<^verbatim>\<open>u\<close> flag,
  so they work on code units, as the matcher below does.
\<close>

type_synonym jsstring = "nat list"

definition jstr :: "string \<Rightarrow> jsstring" where
  "jstr s = map of_char s"

datatype js_error = TypeError | SyntaxError | OtherProgram

text \<open>
  A character class is a list of inclusive ranges \<open>(lo, hi)\<close>, in the order in which the
  source writes them; a single character \<open>c\<close> is the range \<open>(c, c)\<close>.
\<close>

type_synonym ranges = "(nat \<times> nat) list"

fun in_ranges :: "ranges \<Rightarrow> nat \<Rightarrow> bool" where
  "in_ranges [] c = False"
| "in_ranges ((lo, hi) # rs) c = ((lo \<le> c \<and> c \<le> hi) \<or> in_ranges rs c)"

text \<open>
  The pattern syntax the source uses: classes \<open>[...]\<close> and negated classes \<open>[^...]\<close>,
  sequence, alternation \<open>|\<close>, the greedy and the lazy star, a numbered capture group,
  the lookahead \<open>(?=...)\<close>, the anchors \<open>^\<close> and \<open>$\<close> (without the \<^verbatim>\<open>m\<close> flag), and the
  empty pattern. \<open>r+\<close> is \<open>r\<close> followed by \<open>r*\<close>, \<open>r?\<close> is \<open>r\<close> or empty, tried in that
  order.
\<close>

datatype regex =
    Cls ranges
  | NCls ranges
  | Seq regex regex
  | Alt regex regex
  | Star regex
  | LazyStar regex
  | Grp nat regex
  | Ahead regex
  | Bol
  | Eol
  | Eps

definition Plus :: "regex \<Rightarrow> regex" where
  "Plus r = Seq r (Star r)"

definition LazyPlus :: "regex \<Rightarrow> regex" where
  "LazyPlus r = Seq r (LazyStar r)"

definition Opt :: "regex \<Rightarrow> regex" where
  "Opt r = Alt r Eps"

text \<open>
  The backtracking matcher. A state is the input that is left and the captures made so
  far (the newest first). \<open>ms n r st\<close> lists every way in which \<open>r\<close> matches a prefix of
  the input left in \<open>st\<close>, in the order in which a backtracking engine tries them: the
  head of the list is the match the runtime reports. \<open>n\<close> is the length of the whole
  input, which \<open>^\<close> needs. An iteration of a star that consumes nothing is dropped, as the
  language standard prescribes; a lookahead keeps the first match of its body only and
  consumes nothing.
\<close>

type_synonym captures = "(nat \<times> jsstring) list"
type_synonym mstate = "jsstring \<times> captures"

function ms :: "nat \<Rightarrow> regex \<Rightarrow> mstate \<Rightarrow> mstate list" where
  "ms n (Cls rs) (cs, caps) =
     (case cs of [] \<Rightarrow> [] | c # cs' \<Rightarrow> if in_ranges rs c then [(cs', caps)] else [])"
| "ms n (NCls rs) (cs, caps) =
     (case cs of [] \<Rightarrow> [] | c # cs' \<Rightarrow> if in_ranges rs c then [] else [(cs', caps)])"
| "ms n (Seq r1 r2) st = concat (map (ms n r2) (ms n r1 st))"
| "ms n (Alt r1 r2) st = ms n r1 st @ ms n r2 st"
| "ms n (Star r) st =
     concat (map (\<lambda>st'. if length (fst st') < length (fst st) then ms n (Star r) st' else [])
                 (ms n r st)) @ [st]"
| "ms n (LazyStar r) st =
     st # concat (map (\<lambda>st'. if length (fst st') < length (fst st)
                              then ms n (LazyStar r) st' else [])
                      (ms n r st))"
| "ms n (Grp k r) (cs, caps) =
     map (\<lambda>(cs', caps'). (cs', (k, take (length cs - length cs') cs) # caps'))
         (ms n r (cs, caps))"
| "ms n (Ahead r) (cs, caps) =
     (case ms n r (cs, caps) of [] \<Rightarrow> [] | (cs', caps') # _ \<Rightarrow> [(cs, caps')])"
| "ms n Bol (cs, caps) = (if length cs = n then [(cs, caps)] else [])"
| "ms n Eol (cs, caps) = (if cs = [] then [(cs, caps)] else [])"
| "ms n Eps st = [st]"
  by pat_completeness auto
termination
  by (relation "inv_image (less_than <*lex*> less_than) (\<lambda>(n, r, st). (size r, length (fst st)))")
     auto

declare ms.simps(5,6) [simp del]

text \<open>
  \<open>search\<close> is the runtime's search for the leftmost match (\<^verbatim>\<open>RegExp.prototype.exec\<close> of a
  pattern without the \<^verbatim>\<open>g\<close> flag): the start positions are tried from left to right, the
  end of the input included. \<open>test\<close> is \<^verbatim>\<open>RegExp.prototype.test\<close>.
\<close>

fun search :: "nat \<Rightarrow> regex \<Rightarrow> jsstring \<Rightarrow> mstate option" where
  "search n r [] = (case ms n r ([], []) of [] \<Rightarrow> None | st # _ \<Rightarrow> Some st)"
| "search n r (c # cs) =
     (case ms n r (c # cs, []) of [] \<Rightarrow> search n r cs | st # _ \<Rightarrow> Some st)"

definition test :: "regex \<Rightarrow> jsstring \<Rightarrow> bool" where
  "test r s = (search (length s) r s \<noteq> None)"

text \<open>
  \<^verbatim>\<open>String.prototype.match\<close> with a pattern that has the \<^verbatim>\<open>g\<close> flag collects the matched
  substrings from left to right, each search starting where the match before it ended;
  after an empty match the search moves on by one code unit. The result is \<^verbatim>\<open>null\<close>
  (\<open>None\<close>) when nothing matched.
\<close>

function match_from :: "nat \<Rightarrow> regex \<Rightarrow> jsstring \<Rightarrow> jsstring list" where
  "match_from n r cs =
     (case ms n r (cs, []) of
        [] \<Rightarrow> (case cs of [] \<Rightarrow> [] | _ # cs' \<Rightarrow> match_from n r cs')
      | (rest, _) # _ \<Rightarrow>
          if length rest < length cs
          then take (length cs - length rest) cs # match_from n r rest
          else [] # (case cs of [] \<Rightarrow> [] | _ # cs' \<Rightarrow> match_from n r cs'))"
  by pat_completeness auto
termination
  by (relation "measure (\<lambda>(n, r, cs). length cs)") auto

declare match_from.simps [simp del]

definition match_g :: "regex \<Rightarrow> jsstring \<Rightarrow> jsstring list option" where
  "match_g r s = (case match_from (length s) r s of [] \<Rightarrow> None | t # ts \<Rightarrow> Some (t # ts))"

text \<open>
  \<^verbatim>\<open>Array.prototype.join\<close>: an element that is \<^verbatim>\<open>undefined\<close> (\<open>None\<close>) is written as the
  empty string.
\<close>

fun array_join :: "jsstring \<Rightarrow> jsstring option list \<Rightarrow> jsstring" where
  "array_join sep [] = []"
| "array_join sep [x] = (case x of None \<Rightarrow> [] | Some s \<Rightarrow> s)"
| "array_join sep (x # y # ys) =
     (case x of None \<Rightarrow> [] | Some s \<Rightarrow> s) @ sep @ array_join sep (y # ys)"

text \<open>
  \<^verbatim>\<open>Array.prototype.map\<close> with a callback that may throw: the callback gets the element
  and its index, and the first exception ends the loop.
\<close>

fun array_map :: "nat \<Rightarrow> ('a \<Rightarrow> nat \<Rightarrow> js_error + 'b) \<Rightarrow> 'a list \<Rightarrow> js_error + 'b list" where
  "array_map i f [] = Inr []"
| "array_map i f (x # xs) =
     (case f x i of
        Inl e \<Rightarrow> Inl e
      | Inr y \<Rightarrow> (case array_map (Suc i) f xs of Inl e \<Rightarrow> Inl e | Inr ys \<Rightarrow> Inr (y # ys)))"

text \<open>
  Case conversion of the runtime. \<^verbatim>\<open>String.prototype.toLowerCase\<close> is given on the Latin-1
  code units \<open>0x00\<close> to \<open>0xFF\<close>, which are the code units the patterns of \<^verbatim>\<open>strings.ts\<close>
  classify: the letters \<open>A-Z\<close>, \<open>0xC0-0xD6\<close> and \<open>0xD8-0xDE\<close> have their lower case 32
  places up. Code units from \<open>0x100\<close> on are left as they are, which is what the runtime
  does for the uncased ones among them only; the tokens that \<open>camelCase\<close>, \<open>kebabCase\<close> and
  \<open>snakeCase\<close> convert hold letters of the two Latin-1 letter classes and digits only
  (lemma \<open>words_tokens_shape\<close>).
\<close>

definition lower_unit :: "nat \<Rightarrow> nat" where
  "lower_unit c = (if in_ranges [(0x41, 0x5a), (0xc0, 0xd6), (0xd8, 0xde)] c then c + 32 else c)"

definition toLowerCase :: "jsstring \<Rightarrow> jsstring" where
  "toLowerCase s = map lower_unit s"

text \<open>
  \<^verbatim>\<open>String.prototype.toUpperCase\<close> is called by \<^verbatim>\<open>strings.ts\<close> on \<^verbatim>\<open>str[0]\<close> only, a string of
  one code unit; \<open>upper_units up c\<close> is its result on the code unit \<open>c\<close>. On Latin-1 the
  letters \<open>a-z\<close>, \<open>0xE0-0xF6\<close> and \<open>0xF8-0xFE\<close> have their upper case 32 places down,
  \<open>0xDF\<close> has the upper case \<open>SS\<close>, \<open>0xFF\<close> has \<open>0x178\<close>, \<open>0xB5\<close> has \<open>0x39C\<close>, and every
  other code unit below \<open>0x100\<close> is left as it is. For a code unit from \<open>0x100\<close> on the
  result is what the case table of the runtime gives, one or more code units; that
  table is no part of \<^verbatim>\<open>strings.ts\<close> and is taken as the parameter \<open>up\<close>.
\<close>

definition upper_units :: "(nat \<Rightarrow> jsstring) \<Rightarrow> nat \<Rightarrow> jsstring" where
  "upper_units up c =
     (if in_ranges [(0x61, 0x7a), (0xe0, 0xf6), (0xf8, 0xfe)] c then [c - 32]
      else if c = 0xdf then [0x53, 0x53]
      else if c = 0xff then [0x178]
      else if c = 0xb5 then [0x39c]
      else if c < 0x100 then [c]
      else up c)"

section \<open>Word segmentation\<close>

text \<open>The three patterns of \<^verbatim>\<open>strings.ts\<close>, lines 3 to 6, class by class.\<close>

definition upperR :: ranges where
  "upperR = [(0x41, 0x5a), (0xc0, 0xd6), (0xd8, 0xde)]"

definition lowerR :: ranges where
  "lowerR = [(0x61, 0x7a), (0xdf, 0xf6), (0xf8, 0xff)]"

definition breakR :: ranges where
  "breakR = [(0xac, 0xac), (0xb1, 0xb1), (0xd7, 0xd7), (0xf7, 0xf7), (0x00, 0x2f), (0x3a, 0x40),
             (0x5b, 0x60), (0x7b, 0xbf), (0x20, 0x20), (0x09, 0x09), (0x0b, 0x0b), (0x0c, 0x0c),
             (0xa0, 0xa0), (0x0a, 0x0a), (0x0d, 0x0d)]"

definition digitR :: ranges where
  "digitR = [(0x30, 0x39)]"

definition asciiWords :: regex where
  "asciiWords = Plus (NCls [(0x00, 0x2f), (0x3a, 0x40), (0x5b, 0x60), (0x7b, 0x7f)])"

definition unicodeWords :: regex where
  "unicodeWords =
     Alt (Seq (Opt (Cls upperR)) (Seq (Plus (Cls lowerR))
            (Ahead (Alt (Cls breakR) (Alt (Cls upperR) Eol)))))
    (Alt (Seq (Plus (Cls upperR))
            (Ahead (Alt (Cls breakR) (Alt (Seq (Cls upperR) (Cls lowerR)) Eol))))
    (Alt (Seq (Opt (Cls upperR)) (Plus (Cls lowerR)))
    (Alt (Plus (Cls upperR))
         (Plus (Cls digitR)))))"

definition hasUnicodeWord :: regex where
  "hasUnicodeWord =
     Alt (Seq (Cls [(0x61, 0x7a)]) (Cls [(0x41, 0x5a)]))
    (Alt (Seq (Cls [(0x41, 0x5a)]) (Seq (Cls [(0x41, 0x5a)])
            (Seq (Star (Cls [(0x41, 0x5a)])) (Cls [(0x61, 0x7a)]))))
    (Alt (Seq (Cls [(0x30, 0x39)]) (Cls [(0x61, 0x7a), (0x41, 0x5a)]))
    (Alt (Seq (Cls [(0x61, 0x7a), (0x41, 0x5a)]) (Cls [(0x30, 0x39)]))
         (NCls [(0x61, 0x7a), (0x41, 0x5a), (0x30, 0x39), (0x20, 0x20)]))))"

text \<open>
  The argument of \<open>words\<close> is optional and may be \<^verbatim>\<open>null\<close>. \<^verbatim>\<open>str && ...\<close> stops at a
  missing, \<^verbatim>\<open>null\<close> or empty string, and \<^verbatim>\<open>|| []\<close> turns that and a \<^verbatim>\<open>null\<close> match into the
  empty array.
\<close>

datatype strarg = Absent | Null | Given jsstring

fun words :: "strarg \<Rightarrow> jsstring list" where
  "words Absent = []"
| "words Null = []"
| "words (Given s) =
     (if s = [] then []
      else case match_g (if test hasUnicodeWord s then unicodeWords else asciiWords) s of
             None \<Rightarrow> []
           | Some ts \<Rightarrow> ts)"

text \<open>
  \<open>mapWords\<close>: the callback returns a string or \<^verbatim>\<open>undefined\<close>, or throws; the separator
  is optional and defaults to the empty string.
\<close>

definition mapWords ::
  "jsstring \<Rightarrow> (jsstring \<Rightarrow> nat \<Rightarrow> js_error + jsstring option) \<Rightarrow> jsstring option
     \<Rightarrow> js_error + jsstring" where
  "mapWords str wordMapFn join =
     (case array_map 0 wordMapFn (words (Given str)) of
        Inl e \<Rightarrow> Inl e
      | Inr ws \<Rightarrow> Inr (array_join (case join of None \<Rightarrow> [] | Some j \<Rightarrow> j) ws))"

section \<open>Case converters\<close>

definition lowerCase :: "jsstring \<Rightarrow> jsstring" where
  "lowerCase s = toLowerCase s"

definition caseStr :: "jsstring \<Rightarrow> jsstring \<Rightarrow> js_error + jsstring" where
  "caseStr casing str = mapWords str (\<lambda>w i. Inr (Some (lowerCase w))) (Some casing)"

text \<open>
  Modelled from the spec: \<^verbatim>\<open>curry\<close> of \<^verbatim>\<open>./functions\<close>, which is not among the sources.
  The spec requires of it that it fixes the first of two positional arguments and
  returns a function of the one that is left.
\<close>

definition curry_fn :: "('a \<Rightarrow> 'b \<Rightarrow> 'c) \<Rightarrow> 'a \<Rightarrow> 'b \<Rightarrow> 'c" where
  "curry_fn f a = (\<lambda>b. f a b)"

definition kebabCase :: "jsstring \<Rightarrow> js_error + jsstring" where
  "kebabCase = curry_fn caseStr (jstr ''-'')"

definition snakeCase :: "jsstring \<Rightarrow> js_error + jsstring" where
  "snakeCase = curry_fn caseStr (jstr ''_'')"

text \<open>
  \<^verbatim>\<open>str[0]\<close> of the empty string is \<^verbatim>\<open>undefined\<close>, and the call of \<^verbatim>\<open>toUpperCase\<close> on it
  throws a \<^verbatim>\<open>TypeError\<close>. Otherwise \<^verbatim>\<open>str[0]\<close> is the first code unit, and \<^verbatim>\<open>str.slice(1)\<close>
  is the rest. \<open>capitalize\<close> and \<open>camelCase\<close>, which calls it, carry the case table \<open>up\<close> of
  the runtime.
\<close>

definition capitalize :: "(nat \<Rightarrow> jsstring) \<Rightarrow> jsstring \<Rightarrow> js_error + jsstring" where
  "capitalize up str =
     (case str of [] \<Rightarrow> Inl TypeError | c # _ \<Rightarrow> Inr (upper_units up c @ drop 1 str))"

definition camelCase :: "(nat \<Rightarrow> jsstring) \<Rightarrow> jsstring \<Rightarrow> js_error + jsstring" where
  "camelCase up str =
     mapWords str
       (\<lambda>word i. let word = lowerCase word
                  in if i = 0 then Inr (Some word)
                     else (case capitalize up word of Inl e \<Rightarrow> Inl e | Inr w \<Rightarrow> Inr (Some w)))
       None"

section \<open>Wildcard compiler\<close>

text \<open>A single code unit, the class \<open>.\<close> (every code unit but the four line terminators).\<close>

definition Chr :: "nat \<Rightarrow> regex" where
  "Chr c = Cls [(c, c)]"

definition lineTermR :: ranges where
  "lineTermR = [(0x0a, 0x0a), (0x0d, 0x0d), (0x2028, 0x2029)]"

definition Dot :: regex where
  "Dot = NCls lineTermR"

text \<open>
  \<^verbatim>\<open>String.prototype.replace\<close> with a pattern that has the \<^verbatim>\<open>g\<close> flag: every match, from left
  to right, is replaced by what the replacement makes of the matched text, and the code
  units between the matches are kept. The replacement \<^verbatim>\<open>'\\$&'\<close> of the source is a
  backslash followed by the matched text; the two others contain no \<^verbatim>\<open>$\<close> and stand for
  themselves.
\<close>

function replace_from :: "nat \<Rightarrow> regex \<Rightarrow> (jsstring \<Rightarrow> jsstring) \<Rightarrow> jsstring \<Rightarrow> jsstring" where
  "replace_from n r f cs =
     (case ms n r (cs, []) of
        [] \<Rightarrow> (case cs of [] \<Rightarrow> [] | c # cs' \<Rightarrow> c # replace_from n r f cs')
      | (rest, _) # _ \<Rightarrow>
          if length rest < length cs
          then f (take (length cs - length rest) cs) @ replace_from n r f rest
          else f [] @ (case cs of [] \<Rightarrow> [] | c # cs' \<Rightarrow> c # replace_from n r f cs'))"
  by pat_completeness auto
termination
  by (relation "measure (\<lambda>(n, r, f, cs). length cs)") auto

declare replace_from.simps [simp del]

definition replace_g :: "regex \<Rightarrow> (jsstring \<Rightarrow> jsstring) \<Rightarrow> jsstring \<Rightarrow> jsstring" where
  "replace_g r f s = replace_from (length s) r f s"

text \<open>
  \<^verbatim>\<open>RegExp.prototype.exec\<close> without the \<^verbatim>\<open>g\<close> flag, reduced to the captures of the leftmost
  match; the first entry for a group number is its capture, and a group that took no
  part has no entry (\<^verbatim>\<open>undefined\<close>). \<open>js_or_str\<close> is \<^verbatim>\<open>||\<close> on strings that may be missing.
\<close>

definition exec :: "regex \<Rightarrow> jsstring \<Rightarrow> captures option" where
  "exec r s = map_option snd (search (length s) r s)"

definition js_or_str :: "jsstring option \<Rightarrow> jsstring option \<Rightarrow> jsstring option" where
  "js_or_str a b = (case a of None \<Rightarrow> b | Some s \<Rightarrow> if s = [] then b else Some s)"

text \<open>
  The result of \<^verbatim>\<open>new RegExp(source, flags)\<close> is kept as the two arguments of the call.
\<close>

datatype regexp = NewRegExp "jsstring option" "jsstring option"

text \<open>
  Lines 84 to 94 of \<^verbatim>\<open>strings.ts\<close>. \<open>metaR\<close> is the class of line 90, in its order:
  \<^verbatim>\<open>- [ ] / { } ( ) ? . \ ^ $ |\<close>; \<open>rawRegex\<close> is the pattern of line 85.
\<close>

definition metaR :: ranges where
  "metaR = [(0x2d, 0x2d), (0x5b, 0x5b), (0x5d, 0x5d), (0x2f, 0x2f), (0x7b, 0x7b), (0x7d, 0x7d),
            (0x28, 0x28), (0x29, 0x29), (0x3f, 0x3f), (0x2e, 0x2e), (0x5c, 0x5c), (0x5e, 0x5e),
            (0x24, 0x24), (0x7c, 0x7c)]"

definition rawRegex :: regex where
  "rawRegex =
     Seq Bol (Seq (Chr 0x2f) (Seq (Grp 1 (Plus Dot)) (Seq (Chr 0x2f)
       (Seq (Opt (Grp 2 (Plus (Cls [(0x69, 0x69), (0x6d, 0x6d)])))) Eol))))"

definition wildcardToRegExp :: "jsstring \<Rightarrow> jsstring option \<Rightarrow> regexp" where
  "wildcardToRegExp wildcardPattern flags =
     (case exec rawRegex wildcardPattern of
        Some regexMatch \<Rightarrow>
          NewRegExp (map_of regexMatch 1) (js_or_str (map_of regexMatch 2) flags)
      | None \<Rightarrow>
          (let pattern =
                 replace_g (Chr 0x2b) (\<lambda>m. jstr ''.+?'')
                   (replace_g (Chr 0x2a) (\<lambda>m. jstr ''.*?'')
                      (replace_g (Cls metaR) (\<lambda>m. 0x5c # m) wildcardPattern))
           in NewRegExp (Some (jstr ''^'' @ pattern @ jstr ''$'')) flags))"

text \<open>
  The constructor's reading of a source, for the syntax that the second branch of
  \<open>wildcardToRegExp\<close> writes: a backslash followed by one of the characters of \<open>metaR\<close> is
  that character, \<^verbatim>\<open>.*?\<close> and \<^verbatim>\<open>.+?\<close> are the lazy repetitions of \<open>.\<close>, \<^verbatim>\<open>^\<close> and \<^verbatim>\<open>$\<close> are
  the anchors, and every other code unit that is not a syntax character of the pattern
  language stands for itself. Any other source is left unread (\<open>None\<close>). \<open>regexp_test\<close>
  is \<^verbatim>\<open>test\<close> on a pattern that was made without flags.
\<close>

definition syntaxR :: ranges where
  "syntaxR = [(0x5e, 0x5e), (0x24, 0x24), (0x5c, 0x5c), (0x2e, 0x2e), (0x2a, 0x2a), (0x2b, 0x2b),
              (0x3f, 0x3f), (0x28, 0x28), (0x29, 0x29), (0x5b, 0x5b), (0x5d, 0x5d), (0x7b, 0x7b),
              (0x7d, 0x7d), (0x7c, 0x7c)]"

fun parse_atoms :: "jsstring \<Rightarrow> regex list option" where
  "parse_atoms [] = Some []"
| "parse_atoms (c # cs) =
     (if c = 0x5c then
        (case cs of
           [] \<Rightarrow> None
         | d # ds \<Rightarrow> if in_ranges metaR d then map_option ((#) (Chr d)) (parse_atoms ds) else None)
      else if c = 0x2e then
        (case cs of
           q # l # ds \<Rightarrow>
             if q = 0x2a \<and> l = 0x3f then map_option ((#) (LazyStar Dot)) (parse_atoms ds)
             else if q = 0x2b \<and> l = 0x3f then map_option ((#) (LazyPlus Dot)) (parse_atoms ds)
             else None
         | _ \<Rightarrow> None)
      else if c = 0x5e then map_option ((#) Bol) (parse_atoms cs)
      else if c = 0x24 then map_option ((#) Eol) (parse_atoms cs)
      else if in_ranges syntaxR c then None
      else map_option ((#) (Chr c)) (parse_atoms cs))"

definition compile_source :: "jsstring \<Rightarrow> regex option" where
  "compile_source src = map_option (\<lambda>atoms. foldr Seq atoms Eps) (parse_atoms src)"

fun regexp_test :: "regexp \<Rightarrow> jsstring \<Rightarrow> bool option" where
  "regexp_test (NewRegExp (Some src) None) s = map_option (\<lambda>r. test r s) (compile_source src)"
| "regexp_test _ s = None"

section \<open>Template values\<close>

text \<open>
  The values of the language, as far as their truth value goes: \<open>JNum\<close> is a finite
  number (both zeros are \<open>JNum 0\<close>), \<open>JInfinity\<close> carries its sign, \<open>JObject\<close> stands for
  every object, function and symbol. \<open>truthy\<close> is the conversion to a boolean that \<^verbatim>\<open>||\<close>
  applies.
\<close>

datatype jsval =
    JUndefined
  | JNull
  | JBool bool
  | JNum real
  | JNaN
  | JInfinity bool
  | JStr jsstring
  | JObject nat

fun truthy :: "jsval \<Rightarrow> bool" where
  "truthy JUndefined = False"
| "truthy JNull = False"
| "truthy (JBool b) = b"
| "truthy (JNum x) = (x \<noteq> 0)"
| "truthy JNaN = False"
| "truthy (JInfinity _) = True"
| "truthy (JStr s) = (s \<noteq> [])"
| "truthy (JObject _) = True"

definition js_or :: "jsval \<Rightarrow> jsval \<Rightarrow> jsval" where
  "js_or a b = (if truthy a then a else b)"

text \<open>
  An object has its own properties and a prototype, another object or none. The read
  \<^verbatim>\<open>value[key]\<close> looks for the key among the own properties of the object, then of its
  prototype, and so on along the chain; \<open>find_prop\<close> is the value it finds, and \<open>prop_get\<close>
  the result of the read, \<^verbatim>\<open>undefined\<close> where nothing is found.
\<close>

datatype jsobject = JsObject (own: "jsstring \<rightharpoonup> jsval") (proto: "jsobject option")

fun find_prop :: "jsobject \<Rightarrow> jsstring \<Rightarrow> jsval option" where
  "find_prop (JsObject props parent) key =
     (case props key of
        Some v \<Rightarrow> Some v
      | None \<Rightarrow> (case parent of None \<Rightarrow> None | Some p \<Rightarrow> find_prop p key))"

definition prop_get :: "jsobject \<Rightarrow> jsstring \<Rightarrow> jsval" where
  "prop_get obj key = (case find_prop obj key of None \<Rightarrow> JUndefined | Some v \<Rightarrow> v)"

text \<open>
  \<^verbatim>\<open>Object.prototype\<close> with the properties the language standard gives it, each of them a
  function (\<^verbatim>\<open>__proto__\<close> reads as the prototype of the object, an object too), and no
  prototype of its own. An object literal \<^verbatim>\<open>{k1: v1, ...}\<close> has the properties it lists, a
  later entry for a key replacing an earlier one, and \<^verbatim>\<open>Object.prototype\<close> as its
  prototype.
\<close>

definition Object_prototype :: jsobject where
  "Object_prototype =
     JsObject
       (map_of
          [(jstr ''constructor'', JObject 0), (jstr ''__defineGetter__'', JObject 1),
           (jstr ''__defineSetter__'', JObject 2), (jstr ''hasOwnProperty'', JObject 3),
           (jstr ''__lookupGetter__'', JObject 4), (jstr ''__lookupSetter__'', JObject 5),
           (jstr ''isPrototypeOf'', JObject 6), (jstr ''propertyIsEnumerable'', JObject 7),
           (jstr ''toString'', JObject 8), (jstr ''valueOf'', JObject 9),
           (jstr ''__proto__'', JObject 10), (jstr ''toLocaleString'', JObject 11)])
       None"

definition object_literal :: "(jsstring \<times> jsval) list \<Rightarrow> jsobject" where
  "object_literal entries = JsObject (map_of (rev entries)) (Some Object_prototype)"

text \<open>An argument that is not given is \<^verbatim>\<open>undefined\<close>.\<close>

definition optional :: "jsval option \<Rightarrow> jsval" where
  "optional arg = (case arg of None \<Rightarrow> JUndefined | Some v \<Rightarrow> v)"

definition templateObject :: "jsobject \<Rightarrow> jsval option \<Rightarrow> jsstring \<Rightarrow> jsval" where
  "templateObject value nullValue = (\<lambda>key. js_or (prop_get value key) (optional nullValue))"

section \<open>Template compiler\<close>

text \<open>
  Line 105 of \<^verbatim>\<open>strings.ts\<close>. \<open>wsR\<close> is the class \<^verbatim>\<open>\s\<close> of the language standard: the white
  space and the line terminators. The pattern is group 1; inside it, after \<^verbatim>\<open>${\<close>, group 2
  takes white space, one or more code units that are none of \<^verbatim>\<open>;\<close>, white space and \<^verbatim>\<open>{\<close>,
  and white space again; \<^verbatim>\<open>}\<close> ends the match.
\<close>

definition wsR :: ranges where
  "wsR = [(0x09, 0x0d), (0x20, 0x20), (0xa0, 0xa0), (0x1680, 0x1680), (0x2000, 0x200a),
          (0x2028, 0x2029), (0x202f, 0x202f), (0x205f, 0x205f), (0x3000, 0x3000),
          (0xfeff, 0xfeff)]"

definition templateRegex :: regex where
  "templateRegex =
     Grp 1 (Seq (Chr 0x24) (Seq (Chr 0x7b)
       (Seq (Grp 2 (Seq (Star (Cls wsR))
                   (Seq (Plus (NCls ((0x3b, 0x3b) # wsR @ [(0x7b, 0x7b)])))
                        (Star (Cls wsR)))))
            (Chr 0x7d))))"

text \<open>
  \<^verbatim>\<open>String.prototype.split\<close> with a pattern of \<open>k\<close> groups. \<open>acc\<close> holds, in reverse, the code
  units since the end of the last match. A match is tried at each position; where one is
  found that does not end where the last one ended, the text before it and its \<open>k\<close>
  captures (\<open>None\<close> for a group that took no part) are written out. The text after the
  last match ends the array. The empty string gives \<^verbatim>\<open>[""]\<close>, or \<^verbatim>\<open>[]\<close> when the pattern matches
  it.
\<close>

function split_from ::
  "nat \<Rightarrow> regex \<Rightarrow> nat \<Rightarrow> jsstring \<Rightarrow> jsstring \<Rightarrow> jsstring option list" where
  "split_from n r k acc cs =
     (case cs of
        [] \<Rightarrow> [Some (rev acc)]
      | c # cs' \<Rightarrow>
          (case ms n r (cs, []) of
             [] \<Rightarrow> split_from n r k (c # acc) cs'
           | (rest, caps) # _ \<Rightarrow>
               if length rest < length cs
               then Some (rev acc) # map (map_of caps) [1..<Suc k] @ split_from n r k [] rest
               else if acc \<noteq> []
               then Some (rev acc) # map (map_of caps) [1..<Suc k] @ split_from n r k [] cs
               else split_from n r k (c # acc) cs'))"
  by pat_completeness auto
termination
  by (relation "measure (\<lambda>(n, r, k, acc, cs). 2 * length cs + (if acc = [] then 0 else 1))") auto

declare split_from.simps [simp del]

definition split :: "regex \<Rightarrow> nat \<Rightarrow> jsstring \<Rightarrow> jsstring option list" where
  "split r k s =
     (if s = [] then (if ms 0 r ([], []) = [] then [Some []] else [])
      else split_from (length s) r k [] s)"

text \<open>
  \<^verbatim>\<open>String.prototype.replace\<close> with a string as its pattern replaces the first occurrence
  only. The replacement of line 112 is a backslash and a double quote.
\<close>

fun replace_first :: "nat \<Rightarrow> jsstring \<Rightarrow> jsstring \<Rightarrow> jsstring" where
  "replace_first q rep [] = []"
| "replace_first q rep (c # cs) = (if c = q then rep @ cs else c # replace_first q rep cs)"

text \<open>
  The loop of lines 107 to 114, which writes the text of the function body between
  \<^verbatim>\<open>return [\<close> and \<^verbatim>\<open>]\<close>. An element whose first code unit is \<^verbatim>\<open>$\<close> makes a call of \<^verbatim>\<open>$d\<close> on
  the element after it, which the loop then skips; a missing or \<^verbatim>\<open>undefined\<close> element
  after it is written as \<^verbatim>\<open>undefined\<close>. Any other element is written between double
  quotes. Reading the first code unit of an \<^verbatim>\<open>undefined\<close> element throws.
\<close>

fun template_fn :: "jsstring option list \<Rightarrow> js_error + jsstring" where
  "template_fn [] = Inr []"
| "template_fn (None # rest) = Inl TypeError"
| "template_fn (Some seg # rest) =
     (if take 1 seg = jstr ''$''
      then (case template_fn (drop 1 rest) of
              Inl e \<Rightarrow> Inl e
            | Inr fn \<Rightarrow>
                Inr (jstr ''$d('' @ [0x27]
                     @ (case rest of Some key # _ \<Rightarrow> key | _ \<Rightarrow> jstr ''undefined'')
                     @ [0x27] @ jstr ''),'' @ fn))
      else (case template_fn rest of
              Inl e \<Rightarrow> Inl e
            | Inr fn \<Rightarrow>
                Inr ([0x22] @ replace_first 0x22 [0x5c, 0x22] seg @ [0x22] @ jstr '','' @ fn)))"

text \<open>
  \<^verbatim>\<open>Function('$d', body)\<close> compiles the text that the loop wrote. The model reads the
  bodies that are a list of string literals in double quotes and of calls \<^verbatim>\<open>$d('...')\<close>,
  each followed by a comma, which is what the loop means to write; the compiled function
  is kept as that list. A string literal is read as the language standard prescribes
  outside strict mode: a line feed or carriage return inside it, an end of the text, and
  a malformed \<^verbatim>\<open>\x\<close> or \<^verbatim>\<open>\u\<close> escape are a \<^verbatim>\<open>SyntaxError\<close>; a backslash starts an
  escape sequence. For a body of any other form the result is \<open>OtherProgram\<close>: the
  runtime either raises a \<^verbatim>\<open>SyntaxError\<close> or compiles whatever program the text is.
\<close>

datatype item = Lit jsstring | Call jsstring

definition hexval :: "nat \<Rightarrow> nat option" where
  "hexval c =
     (if 0x30 \<le> c \<and> c \<le> 0x39 then Some (c - 0x30)
      else if 0x61 \<le> c \<and> c \<le> 0x66 then Some (c - 0x61 + 10)
      else if 0x41 \<le> c \<and> c \<le> 0x46 then Some (c - 0x41 + 10)
      else None)"

definition octal :: "nat \<Rightarrow> bool" where
  "octal c = (0x30 \<le> c \<and> c \<le> 0x37)"

definition utf16 :: "nat \<Rightarrow> jsstring" where
  "utf16 cp =
     (if cp < 0x10000 then [cp]
      else [0xd800 + (cp - 0x10000) div 0x400, 0xdc00 + (cp - 0x10000) mod 0x400])"

fun hex_braced :: "nat \<Rightarrow> jsstring \<Rightarrow> (nat \<times> jsstring) option" where
  "hex_braced v [] = None"
| "hex_braced v (c # cs) =
     (if c = 0x7d then Some (v, cs)
      else (case hexval c of
              None \<Rightarrow> None
            | Some h \<Rightarrow> if 16 * v + h \<le> 0x10ffff then hex_braced (16 * v + h) cs else None))"

fun escape :: "jsstring \<Rightarrow> js_error + jsstring \<times> jsstring" where
  "escape [] = Inl SyntaxError"
| "escape (e # cs) =
     (if e = 0x62 then Inr ([0x08], cs)
      else if e = 0x74 then Inr ([0x09], cs)
      else if e = 0x6e then Inr ([0x0a], cs)
      else if e = 0x76 then Inr ([0x0b], cs)
      else if e = 0x66 then Inr ([0x0c], cs)
      else if e = 0x72 then Inr ([0x0d], cs)
      else if e = 0x0a \<or> e = 0x2028 \<or> e = 0x2029 then Inr ([], cs)
      else if e = 0x0d then Inr ([], case cs of c # cs' \<Rightarrow> if c = 0x0a then cs' else cs | [] \<Rightarrow> cs)
      else if e = 0x78 then
        (case cs of
           a # b # cs' \<Rightarrow>
             (case (hexval a, hexval b) of
                (Some x, Some y) \<Rightarrow> Inr ([16 * x + y], cs')
              | _ \<Rightarrow> Inl SyntaxError)
         | _ \<Rightarrow> Inl SyntaxError)
      else if e = 0x75 then
        (case cs of
           a # b # c # d # cs' \<Rightarrow>
             (if a = 0x7b then
                (case hexval b of
                   None \<Rightarrow> Inl SyntaxError
                 | Some _ \<Rightarrow>
                     (case hex_braced 0 (b # c # d # cs') of
                        None \<Rightarrow> Inl SyntaxError
                      | Some (v, rest) \<Rightarrow> Inr (utf16 v, rest)))
              else
                (case (hexval a, hexval b, hexval c, hexval d) of
                   (Some w, Some x, Some y, Some z) \<Rightarrow>
                     Inr ([4096 * w + 256 * x + 16 * y + z], cs')
                 | _ \<Rightarrow> Inl SyntaxError))
         | a # b # c # [] \<Rightarrow>
             (if a = 0x7b \<and> c = 0x7d
              then (case hexval b of None \<Rightarrow> Inl SyntaxError | Some v \<Rightarrow> Inr ([v], []))
              else Inl SyntaxError)
         | _ \<Rightarrow> Inl SyntaxError)
      else if octal e then
        (case cs of
           a # cs' \<Rightarrow>
             if octal a then
               (case cs' of
                  b # cs'' \<Rightarrow>
                    if e \<le> 0x33 \<and> octal b
                    then Inr ([64 * (e - 0x30) + 8 * (a - 0x30) + (b - 0x30)], cs'')
                    else Inr ([8 * (e - 0x30) + (a - 0x30)], cs')
                | [] \<Rightarrow> Inr ([8 * (e - 0x30) + (a - 0x30)], cs'))
             else Inr ([e - 0x30], cs)
         | [] \<Rightarrow> Inr ([e - 0x30], cs))
      else Inr ([e], cs))"

function lex_string :: "nat \<Rightarrow> jsstring \<Rightarrow> js_error + jsstring \<times> jsstring" where
  "lex_string q cs =
     (case cs of
        [] \<Rightarrow> Inl SyntaxError
      | c # cs' \<Rightarrow>
          if c = q then Inr ([], cs')
          else if c = 0x0a \<or> c = 0x0d then Inl SyntaxError
          else if c = 0x5c then
            (case escape cs' of
               Inl e \<Rightarrow> Inl e
             | Inr (units, rest) \<Rightarrow>
                 if length rest < length cs
                 then (case lex_string q rest of
                         Inl e \<Rightarrow> Inl e
                       | Inr (s, rest') \<Rightarrow> Inr (units @ s, rest'))
                 else Inl SyntaxError)
          else (case lex_string q cs' of
                  Inl e \<Rightarrow> Inl e
                | Inr (s, rest') \<Rightarrow> Inr (c # s, rest')))"
  by pat_completeness auto
termination
  by (relation "measure (\<lambda>(q, cs). length cs)") auto

declare lex_string.simps [simp del]

function parse_items :: "jsstring \<Rightarrow> js_error + item list" where
  "parse_items cs =
     (if cs = jstr '']'' then Inr []
      else if take 1 cs = [0x22] then
        (case lex_string 0x22 (drop 1 cs) of
           Inl e \<Rightarrow> Inl e
         | Inr (s, rest) \<Rightarrow>
             if take 1 rest = jstr '','' \<and> length (drop 1 rest) < length cs
             then (case parse_items (drop 1 rest) of
                     Inl e \<Rightarrow> Inl e
                   | Inr items \<Rightarrow> Inr (Lit s # items))
             else Inl OtherProgram)
      else if take 4 cs = jstr ''$d('' @ [0x27] then
        (case lex_string 0x27 (drop 4 cs) of
           Inl e \<Rightarrow> Inl e
         | Inr (key, rest) \<Rightarrow>
             if take 2 rest = jstr ''),'' \<and> length (drop 2 rest) < length cs
             then (case parse_items (drop 2 rest) of
                     Inl e \<Rightarrow> Inl e
                   | Inr items \<Rightarrow> Inr (Call key # items))
             else Inl OtherProgram)
      else Inl OtherProgram)"
  by pat_completeness auto
termination
  by (relation "measure length") auto

declare parse_items.simps [simp del]

definition compile_Function :: "jsstring \<Rightarrow> js_error + item list" where
  "compile_Function body =
     (if take 8 body = jstr ''return ['' then parse_items (drop 8 body) else Inl OtherProgram)"

definition template :: "jsstring \<Rightarrow> js_error + item list" where
  "template t =
     (case template_fn (split templateRegex 2 t) of
        Inl e \<Rightarrow> Inl e
      | Inr fn \<Rightarrow> compile_Function (jstr ''return ['' @ fn @ jstr '']''))"

text \<open>
  Calling the compiled function with the callback \<open>d\<close>, and \<^verbatim>\<open>Array.prototype.join\<close> on
  its result, for the values whose text the model has: strings, booleans, and
  \<^verbatim>\<open>undefined\<close> and \<^verbatim>\<open>null\<close>, which \<^verbatim>\<open>join\<close> writes as the empty string.
\<close>

definition call_template :: "item list \<Rightarrow> (jsstring \<Rightarrow> jsval) \<Rightarrow> jsval list" where
  "call_template items d = map (\<lambda>i. case i of Lit s \<Rightarrow> JStr s | Call key \<Rightarrow> d key) items"

fun join_text :: "jsval \<Rightarrow> jsstring option" where
  "join_text JUndefined = Some []"
| "join_text JNull = Some []"
| "join_text (JStr s) = Some s"
| "join_text (JBool b) = Some (if b then jstr ''true'' else jstr ''false'')"
| "join_text _ = None"

fun jsval_join :: "jsstring \<Rightarrow> jsval list \<Rightarrow> jsstring option" where
  "jsval_join sep [] = Some []"
| "jsval_join sep [x] = join_text x"
| "jsval_join sep (x # y # ys) =
     (case (join_text x, jsval_join sep (y # ys)) of
        (Some a, Some b) \<Rightarrow> Some (a @ sep @ b)
      | _ \<Rightarrow> None)"

section \<open>Notions used by the statements\<close>

text \<open>A pattern is consuming when each of its matches takes at least one code unit.\<close>

fun consuming :: "regex \<Rightarrow> bool" where
  "consuming (Cls rs) = True"
| "consuming (NCls rs) = True"
| "consuming (Seq r1 r2) = (consuming r1 \<or> consuming r2)"
| "consuming (Alt r1 r2) = (consuming r1 \<and> consuming r2)"
| "consuming (Grp k r) = consuming r"
| "consuming _ = False"

text \<open>
  The code units that can start a token of the extended matcher: the letters of its two
  letter classes and the digits.
\<close>

definition word_forming :: "nat \<Rightarrow> bool" where
  "word_forming c = (in_ranges upperR c \<or> in_ranges lowerR c \<or> in_ranges digitR c)"

text \<open>The class that the last alternative of \<open>hasUnicodeWord\<close> negates.\<close>

definition plainR :: ranges where
  "plainR = [(0x61, 0x7a), (0x41, 0x5a), (0x30, 0x39), (0x20, 0x20)]"

text \<open>
  The hyphen-separated lower-case word form: the pieces of the string between its hyphens
  are words, and a word is a run, not empty, of lower-case letters of the matcher's
  class, or of digits.
\<close>

fun split_hyphen :: "jsstring \<Rightarrow> jsstring list" where
  "split_hyphen [] = [[]]"
| "split_hyphen (c # cs) =
     (if c = 0x2d then [] # split_hyphen cs
      else (case split_hyphen cs of [] \<Rightarrow> [[c]] | w # ws \<Rightarrow> (c # w) # ws))"

definition kebab_word :: "jsstring \<Rightarrow> bool" where
  "kebab_word w = (w \<noteq> [] \<and> (list_all (in_ranges lowerR) w \<or> list_all (in_ranges digitR) w))"

definition kebab_form :: "jsstring \<Rightarrow> bool" where
  "kebab_form s = list_all kebab_word (split_hyphen s)"

text \<open>The input left after a word of that form: nothing, or a hyphen first.\<close>

definition at_break :: "jsstring \<Rightarrow> bool" where
  "at_break rest = (case rest of [] \<Rightarrow> True | c # _ \<Rightarrow> c = 0x2d)"

text \<open>
  The wildcard compiler in the spec's words: the characters of \<open>metaR\<close> get a backslash,
  then every \<^verbatim>\<open>*\<close> becomes \<^verbatim>\<open>.*?\<close> and every \<^verbatim>\<open>+\<close> becomes \<^verbatim>\<open>.+?\<close>. \<open>glob_unit\<close> is what the
  three passes together write for one character of the glob; \<open>glob_body\<close> is the pattern
  the glob stands for: \<^verbatim>\<open>*\<close> is any sequence, \<^verbatim>\<open>+\<close> a sequence that is not empty (neither
  crossing a line terminator), and every other character is itself.
\<close>

definition spec_escape :: "jsstring \<Rightarrow> jsstring" where
  "spec_escape s = concat (map (\<lambda>c. if in_ranges metaR c then [0x5c, c] else [c]) s)"

definition spec_subst :: "nat \<Rightarrow> jsstring \<Rightarrow> jsstring \<Rightarrow> jsstring" where
  "spec_subst c rep s = concat (map (\<lambda>x. if x = c then rep else [x]) s)"

definition glob_unit :: "nat \<Rightarrow> jsstring" where
  "glob_unit c =
     (if in_ranges metaR c then [0x5c, c]
      else if c = 0x2a then jstr ''.*?''
      else if c = 0x2b then jstr ''.+?''
      else [c])"

definition glob_atom :: "nat \<Rightarrow> regex" where
  "glob_atom c = (if c = 0x2a then LazyStar Dot else if c = 0x2b then LazyPlus Dot else Chr c)"

definition glob_body :: "jsstring \<Rightarrow> regex" where
  "glob_body p = foldr Seq (map glob_atom p) Eps"

text \<open>
  The code units a pattern can take: those of its classes outside a lookahead. A run of
  letters of the two letter classes, a run of digits; the ASCII letters; and a string in
  which no ASCII letter stands next to a digit.
\<close>

fun eats :: "regex \<Rightarrow> nat \<Rightarrow> bool" where
  "eats (Cls rs) c = in_ranges rs c"
| "eats (NCls rs) c = (\<not> in_ranges rs c)"
| "eats (Seq r1 r2) c = (eats r1 c \<or> eats r2 c)"
| "eats (Alt r1 r2) c = (eats r1 c \<or> eats r2 c)"
| "eats (Star r) c = eats r c"
| "eats (LazyStar r) c = eats r c"
| "eats (Grp k r) c = eats r c"
| "eats _ c = False"

definition letters :: "jsstring \<Rightarrow> bool" where
  "letters w = list_all (\<lambda>c. in_ranges upperR c \<or> in_ranges lowerR c) w"

definition digits :: "jsstring \<Rightarrow> bool" where
  "digits w = list_all (in_ranges digitR) w"

definition alphaR :: ranges where
  "alphaR = [(0x61, 0x7a), (0x41, 0x5a)]"

fun unmixed :: "jsstring \<Rightarrow> bool" where
  "unmixed (a # b # cs) =
     (\<not> (in_ranges digitR a \<and> in_ranges alphaR b)
      \<and> \<not> (in_ranges alphaR a \<and> in_ranges digitR b)
      \<and> unmixed (b # cs))"
| "unmixed _ = True"

section \<open>Properties of the matcher\<close>

lemma ms_length_le:
  "st' \<in> set (ms n r st) \<Longrightarrow> length (fst st') \<le> length (fst st)"
proof (induction n r st arbitrary: st' rule: ms.induct)
  case (1 n rs cs caps)
  then show ?case by (auto split: list.splits if_splits)
next
  case (2 n rs cs caps)
  then show ?case by (auto split: list.splits if_splits)
next
  case (3 n r1 r2 st)
  from "3.prems" obtain mid where mid: "mid \<in> set (ms n r1 st)" "st' \<in> set (ms n r2 mid)"
    by auto
  from "3.IH"(1)[OF mid(1)] "3.IH"(2)[OF mid(1) mid(2)] show ?case by simp
next
  case (4 n r1 r2 st)
  from "4.prems" have "st' \<in> set (ms n r1 st) \<or> st' \<in> set (ms n r2 st)" by simp
  then show ?case
  proof
    assume "st' \<in> set (ms n r1 st)" then show ?thesis by (rule "4.IH"(1))
  next
    assume "st' \<in> set (ms n r2 st)" then show ?thesis by (rule "4.IH"(2))
  qed
next
  case (5 n r st)
  from "5.prems" consider "st' = st"
    | mid where "mid \<in> set (ms n r st)" "length (fst mid) < length (fst st)"
        "st' \<in> set (ms n (Star r) mid)"
    by (subst (asm) ms.simps(5)) (auto split: if_splits)
  then show ?case
  proof cases
    case 1 then show ?thesis by simp
  next
    case 2
    from "5.IH"(2)[OF 2(1) 2(2) 2(3)] 2(2) show ?thesis by simp
  qed
next
  case (6 n r st)
  from "6.prems" consider "st' = st"
    | mid where "mid \<in> set (ms n r st)" "length (fst mid) < length (fst st)"
        "st' \<in> set (ms n (LazyStar r) mid)"
    by (subst (asm) ms.simps(6)) (auto split: if_splits)
  then show ?case
  proof cases
    case 1 then show ?thesis by simp
  next
    case 2
    from "6.IH"(2)[OF 2(1) 2(2) 2(3)] 2(2) show ?thesis by simp
  qed
next
  case (7 n k r cs caps)
  from "7.prems" obtain mid where mid: "mid \<in> set (ms n r (cs, caps))" "fst st' = fst mid"
    by auto
  from "7.IH"[OF mid(1)] mid(2) show ?case by simp
next
  case (8 n r cs caps)
  then show ?case by (auto split: list.splits)
next
  case (9 n cs caps)
  then show ?case by (auto split: if_splits)
next
  case (10 n cs caps)
  then show ?case by (auto split: if_splits)
next
  case (11 n st)
  then show ?case by simp
qed

lemma ms_consuming:
  "consuming r \<Longrightarrow> st' \<in> set (ms n r st) \<Longrightarrow> length (fst st') < length (fst st)"
proof (induction n r st arbitrary: st' rule: ms.induct)
  case (1 n rs cs caps)
  then show ?case by (auto split: list.splits if_splits)
next
  case (2 n rs cs caps)
  then show ?case by (auto split: list.splits if_splits)
next
  case (3 n r1 r2 st)
  from "3.prems"(2) obtain mid where mid: "mid \<in> set (ms n r1 st)" "st' \<in> set (ms n r2 mid)"
    by auto
  have le1: "length (fst mid) \<le> length (fst st)" using mid(1) by (rule ms_length_le)
  have le2: "length (fst st') \<le> length (fst mid)" using mid(2) by (rule ms_length_le)
  show ?case
  proof (cases "consuming r1")
    case True
    from "3.IH"(1)[OF True mid(1)] le2 show ?thesis by simp
  next
    case False
    with "3.prems" have c2: "consuming r2" by simp
    from "3.IH"(2)[OF mid(1) c2 mid(2)] le1 show ?thesis by simp
  qed
next
  case (4 n r1 r2 st)
  from "4.prems"(1) have c: "consuming r1" "consuming r2" by simp_all
  from "4.prems"(2) have "st' \<in> set (ms n r1 st) \<or> st' \<in> set (ms n r2 st)" by simp
  then show ?case
  proof
    assume "st' \<in> set (ms n r1 st)" with c(1) show ?thesis by (rule "4.IH"(1))
  next
    assume "st' \<in> set (ms n r2 st)" with c(2) show ?thesis by (rule "4.IH"(2))
  qed
next
  case (7 n k r cs caps)
  from "7.prems"(1) have c: "consuming r" by simp
  from "7.prems"(2) obtain mid where mid: "mid \<in> set (ms n r (cs, caps))" "fst st' = fst mid"
    by auto
  from "7.IH"[OF c mid(1)] mid(2) show ?case by simp
qed simp_all

lemma match_from_nonempty:
  "consuming r \<Longrightarrow> t \<in> set (match_from n r cs) \<Longrightarrow> t \<noteq> []"
proof (induction n r cs rule: match_from.induct)
  case (1 n r cs)
  show ?case
  proof (cases "ms n r (cs, [])")
    case Nil
    then have eq: "match_from n r cs = (case cs of [] \<Rightarrow> [] | _ # cs' \<Rightarrow> match_from n r cs')"
      by (subst match_from.simps) simp
    show ?thesis
    proof (cases cs)
      case Nil
      with eq "1.prems"(2) show ?thesis by simp
    next
      case (Cons c cs')
      with eq "1.prems"(2) have "t \<in> set (match_from n r cs')" by simp
      with "1.IH"(1)[OF \<open>ms n r (cs, []) = []\<close> Cons "1.prems"(1)] show ?thesis by simp
    qed
  next
    case (Cons st sts)
    obtain rest caps where st: "st = (rest, caps)" by (cases st)
    from Cons st have "(rest, caps) \<in> set (ms n r (cs, []))" by simp
    with "1.prems"(1) have lt: "length rest < length cs"
      using ms_consuming by fastforce
    from "1.prems"(2) Cons st lt
    have "t = take (length cs - length rest) cs \<or> t \<in> set (match_from n r rest)"
      by (subst (asm) match_from.simps) auto
    then show ?thesis
    proof
      assume "t = take (length cs - length rest) cs"
      with lt show ?thesis by auto
    next
      assume "t \<in> set (match_from n r rest)"
      with "1.IH"(2)[OF Cons st[symmetric] lt "1.prems"(1)] show ?thesis by simp
    qed
  qed
qed

lemma consuming_asciiWords: "consuming asciiWords"
  by (simp add: asciiWords_def Plus_def)

lemma consuming_unicodeWords: "consuming unicodeWords"
  by (simp add: unicodeWords_def Plus_def Opt_def)

lemma words_nonempty: "t \<in> set (words a) \<Longrightarrow> t \<noteq> []"
proof (cases a)
  case (Given s)
  assume t: "t \<in> set (words a)"
  let ?r = "if test hasUnicodeWord s then unicodeWords else asciiWords"
  have c: "consuming ?r" by (simp add: consuming_asciiWords consuming_unicodeWords)
  from t Given have "t \<in> set (match_from (length s) ?r s)"
    by (auto simp: match_g_def split: if_splits list.splits option.splits)
  with c show ?thesis by (rule match_from_nonempty)
qed simp_all

subsection \<open>Inputs without a word\<close>

lemma ms_unicodeWords_fail:
  "\<not> word_forming c \<Longrightarrow> ms n unicodeWords (c # cs, caps) = []"
  by (simp add: word_forming_def unicodeWords_def Plus_def Opt_def)

lemma ms_unicodeWords_Nil: "ms n unicodeWords ([], caps) = []"
  by (simp add: unicodeWords_def Plus_def Opt_def)

lemma ms_asciiWords_Nil: "ms n asciiWords ([], caps) = []"
  by (simp add: asciiWords_def Plus_def)

lemma ms_asciiWords_space: "ms n asciiWords (32 # cs, caps) = []"
  by (simp add: asciiWords_def Plus_def)

lemma match_from_unicodeWords_none:
  "list_all (\<lambda>c. \<not> word_forming c) cs \<Longrightarrow> match_from n unicodeWords cs = []"
proof (induction cs)
  case Nil
  show ?case by (subst match_from.simps) (simp add: ms_unicodeWords_Nil)
next
  case (Cons c cs)
  then show ?case by (subst match_from.simps) (simp add: ms_unicodeWords_fail)
qed

lemma match_from_asciiWords_spaces:
  "list_all (\<lambda>c. c = 32) cs \<Longrightarrow> match_from n asciiWords cs = []"
proof (induction cs)
  case Nil
  show ?case by (subst match_from.simps) (simp add: ms_asciiWords_Nil)
next
  case (Cons c cs)
  then show ?case by (subst match_from.simps) (simp add: ms_asciiWords_space)
qed

lemma ms_hasUnicodeWord_plain:
  "ms n hasUnicodeWord (c # cs, caps) = [] \<Longrightarrow> in_ranges plainR c"
  by (simp add: hasUnicodeWord_def plainR_def split: if_splits)

lemma search_hasUnicodeWord_plain:
  "search n hasUnicodeWord cs = None \<Longrightarrow> list_all (in_ranges plainR) cs"
proof (induction cs)
  case Nil
  show ?case by simp
next
  case (Cons c cs)
  from Cons.prems have a: "ms n hasUnicodeWord (c # cs, []) = []"
    and b: "search n hasUnicodeWord cs = None"
    by (auto split: list.splits)
  from a have "in_ranges plainR c" by (rule ms_hasUnicodeWord_plain)
  with Cons.IH[OF b] show ?case by simp
qed

lemma plain_not_word_forming: "in_ranges plainR c \<Longrightarrow> \<not> word_forming c \<Longrightarrow> c = 32"
  by (auto simp: plainR_def word_forming_def upperR_def lowerR_def digitR_def)

lemma words_none:
  assumes "list_all (\<lambda>c. \<not> word_forming c) s"
  shows "words (Given s) = []"
proof (cases "test hasUnicodeWord s")
  case True
  with assms show ?thesis
    by (simp add: match_g_def match_from_unicodeWords_none)
next
  case False
  then have "search (length s) hasUnicodeWord s = None"
    unfolding test_def by blast
  then have "list_all (in_ranges plainR) s"
    by (rule search_hasUnicodeWord_plain)
  with assms have "list_all (\<lambda>c. c = 32) s"
    by (induction s) (auto dest: plain_not_word_forming)
  with False show ?thesis
    by (simp add: match_g_def match_from_asciiWords_spaces)
qed

subsection \<open>The case converters\<close>

lemma lowerCase_nonempty: "w \<noteq> [] \<Longrightarrow> lowerCase w \<noteq> []"
  by (simp add: lowerCase_def toLowerCase_def)

lemma capitalize_Cons: "capitalize up (c # cs) = Inr (upper_units up c @ cs)"
  by (simp add: capitalize_def)

lemma capitalize_nonempty:
  "w \<noteq> [] \<Longrightarrow> capitalize up w = Inr (upper_units up (hd w) @ tl w)"
  by (cases w) (simp_all add: capitalize_Cons)

lemma array_map_camel_tail:
  assumes "list_all (\<lambda>w. w \<noteq> []) ws" and "0 < i"
  shows "array_map i
           (\<lambda>word i. let word = lowerCase word
                      in if i = 0 then Inr (Some word)
                         else (case capitalize up word of Inl e \<Rightarrow> Inl e | Inr w \<Rightarrow> Inr (Some w)))
           ws
         = Inr (map (\<lambda>w. Some (upper_units up (hd (lowerCase w)) @ tl (lowerCase w))) ws)"
  using assms
proof (induction ws arbitrary: i)
  case Nil
  show ?case by simp
next
  case (Cons w ws)
  from Cons.prems have w: "lowerCase w \<noteq> []" by (simp add: lowerCase_nonempty)
  from Cons.prems have rest: "list_all (\<lambda>w. w \<noteq> []) ws" by simp
  have "0 < Suc i" by simp
  from Cons.IH[OF rest this] Cons.prems(2) w show ?case
    by (simp add: capitalize_nonempty Let_def)
qed

lemma array_join_empty_Some: "array_join [] (map Some xs) = concat xs"
  by (induction xs rule: induct_list012) simp_all

lemma camelCase_tokens:
  "camelCase up s =
     Inr (concat (case map lowerCase (words (Given s)) of
                    [] \<Rightarrow> []
                  | w # ws \<Rightarrow> w # map (\<lambda>w. upper_units up (hd w) @ tl w) ws))"
proof (cases "words (Given s)")
  case Nil
  then show ?thesis by (simp add: camelCase_def mapWords_def del: words.simps)
next
  case (Cons w ws)
  let ?F = "\<lambda>word i. let word = lowerCase word
                      in if i = 0 then Inr (Some word)
                         else (case capitalize up word of Inl e \<Rightarrow> Inl e | Inr w \<Rightarrow> Inr (Some w))"
  let ?out = "lowerCase w # map (\<lambda>w. upper_units up (hd w) @ tl w) (map lowerCase ws)"
  have "list_all (\<lambda>w. w \<noteq> []) (words (Given s))"
    unfolding list_all_iff using words_nonempty by blast
  with Cons have ne: "list_all (\<lambda>w. w \<noteq> []) ws" by simp
  have am: "array_map 0 ?F (w # ws) = Inr (map Some ?out)"
    using array_map_camel_tail[OF ne, of "Suc 0"] by (simp add: Let_def comp_def)
  have "camelCase up s = Inr (array_join [] (map Some ?out))"
    unfolding camelCase_def mapWords_def Cons am by (simp only: sum.case option.case)
  also have "\<dots> = Inr (concat ?out)"
    by (simp only: array_join_empty_Some)
  finally show ?thesis by (simp only: Cons list.map list.case)
qed

subsection \<open>Strings in hyphen-separated form\<close>

lemma star_run:
  assumes step: "\<And>c cs. c \<in> set w \<Longrightarrow> ms n r (c # cs, caps) = [(cs, caps)]"
    and stop: "ms n r (rest, caps) = []"
  shows "\<exists>sts. ms n (Star r) (w @ rest, caps) = (rest, caps) # sts"
  using step
proof (induction w)
  case Nil
  show ?case by (subst ms.simps(5)) (simp add: stop)
next
  case (Cons c w)
  from Cons.prems have c: "ms n r (c # w @ rest, caps) = [(w @ rest, caps)]" by simp
  from Cons.IH Cons.prems obtain sts where "ms n (Star r) (w @ rest, caps) = (rest, caps) # sts"
    by auto
  with c show ?case by (subst ms.simps(5)) simp
qed

lemma plus_run:
  assumes step: "\<And>c cs. c \<in> set w \<Longrightarrow> ms n r (c # cs, caps) = [(cs, caps)]"
    and stop: "ms n r (rest, caps) = []"
    and ne: "w \<noteq> []"
  shows "\<exists>sts. ms n (Plus r) (w @ rest, caps) = (rest, caps) # sts"
proof -
  from ne obtain c w' where w: "w = c # w'" by (cases w) auto
  with step have c: "ms n r (c # w' @ rest, caps) = [(w' @ rest, caps)]" by simp
  from step w have "\<And>c cs. c \<in> set w' \<Longrightarrow> ms n r (c # cs, caps) = [(cs, caps)]" by simp
  from star_run[OF this stop] obtain sts where "ms n (Star r) (w' @ rest, caps) = (rest, caps) # sts"
    by blast
  with c w show ?thesis by (simp add: Plus_def)
qed

lemma lower_not_upper: "in_ranges lowerR c \<Longrightarrow> \<not> in_ranges upperR c"
  by (auto simp: lowerR_def upperR_def)

lemma digit_not_letter: "in_ranges digitR c \<Longrightarrow> \<not> in_ranges upperR c \<and> \<not> in_ranges lowerR c"
  by (auto simp: lowerR_def upperR_def digitR_def)

lemma ms_Cls_stop: "at_break rest \<Longrightarrow> \<not> in_ranges rs 0x2d \<Longrightarrow> ms n (Cls rs) (rest, caps) = []"
  by (auto simp: at_break_def split: list.splits)

lemma unicodeWords_lower_run:
  assumes w: "w \<noteq> []" "list_all (in_ranges lowerR) w" and rest: "at_break rest"
  shows "\<exists>cp sts. ms n unicodeWords (w @ rest, caps) = (rest, cp) # sts"
proof -
  from w obtain c w' where cw: "w = c # w'" by (cases w) auto
  with w have "\<not> in_ranges upperR c" by (simp add: lower_not_upper)
  then have opt: "ms n (Opt (Cls upperR)) (w @ rest, caps) = [(w @ rest, caps)]"
    by (simp add: Opt_def cw)
  have stop: "ms n (Cls lowerR) (rest, caps) = []"
    using rest by (rule ms_Cls_stop) (simp add: lowerR_def)
  have "\<And>c cs. c \<in> set w \<Longrightarrow> ms n (Cls lowerR) (c # cs, caps) = [(cs, caps)]"
    using w(2) by (simp add: list_all_iff)
  from plus_run[OF this stop w(1)] obtain sts
    where run: "ms n (Plus (Cls lowerR)) (w @ rest, caps) = (rest, caps) # sts" by blast
  have look: "ms n (Ahead (Alt (Cls breakR) (Alt (Cls upperR) Eol))) (rest, caps) = [(rest, caps)]"
    using rest by (auto simp: at_break_def breakR_def split: list.splits)
  show ?thesis
    by (simp add: unicodeWords_def[of ] opt run look del: ms.simps(8))
qed

lemma unicodeWords_digit_run:
  assumes w: "w \<noteq> []" "list_all (in_ranges digitR) w" and rest: "at_break rest"
  shows "\<exists>cp sts. ms n unicodeWords (w @ rest, caps) = (rest, cp) # sts"
proof -
  from w obtain c w' where cw: "w = c # w'" by (cases w) auto
  with w have nl: "\<not> in_ranges upperR c" "\<not> in_ranges lowerR c"
    by (simp_all add: digit_not_letter)
  have stop: "ms n (Cls digitR) (rest, caps) = []"
    using rest by (rule ms_Cls_stop) (simp add: digitR_def)
  have "\<And>c cs. c \<in> set w \<Longrightarrow> ms n (Cls digitR) (c # cs, caps) = [(cs, caps)]"
    using w(2) by (simp add: list_all_iff)
  from plus_run[OF this stop w(1)] obtain sts
    where run: "ms n (Plus (Cls digitR)) (w @ rest, caps) = (rest, caps) # sts" by blast
  have up: "ms n (Plus (Cls upperR)) (w @ rest, caps) = []"
    using nl by (simp add: Plus_def cw)
  have lo: "ms n (Plus (Cls lowerR)) (w @ rest, caps) = []"
    using nl by (simp add: Plus_def cw)
  have opt: "ms n (Opt (Cls upperR)) (w @ rest, caps) = [(w @ rest, caps)]"
    using nl by (simp add: Opt_def cw)
  show ?thesis
    by (simp add: unicodeWords_def opt run up lo del: ms.simps(8))
qed

lemma asciiWords_run:
  assumes w: "w \<noteq> []" "list_all (in_ranges lowerR) w \<or> list_all (in_ranges digitR) w"
    and rest: "at_break rest"
  shows "\<exists>cp sts. ms n asciiWords (w @ rest, caps) = (rest, cp) # sts"
proof -
  let ?X = "[(0x00, 0x2f), (0x3a, 0x40), (0x5b, 0x60), (0x7b, 0x7f)]"
  have stop: "ms n (NCls ?X) (rest, caps) = []"
    using rest by (auto simp: at_break_def split: list.splits)
  have "\<And>c. c \<in> set w \<Longrightarrow> \<not> in_ranges ?X c"
    using w(2) by (auto simp: list_all_iff lowerR_def digitR_def)
  then have "\<And>c cs. c \<in> set w \<Longrightarrow> ms n (NCls ?X) (c # cs, caps) = [(cs, caps)]"
    by simp
  from plus_run[OF this stop w(1)] show ?thesis
    unfolding asciiWords_def by blast
qed

lemma ms_hyphen_fail:
  "ms n unicodeWords (0x2d # cs, caps) = []" "ms n asciiWords (0x2d # cs, caps) = []"
  by (simp_all add: unicodeWords_def asciiWords_def Plus_def Opt_def upperR_def lowerR_def digitR_def)

lemma words_regex_run:
  assumes r: "r = unicodeWords \<or> r = asciiWords" and w: "kebab_word w" and rest: "at_break rest"
  shows "\<exists>cp sts. ms n r (w @ rest, []) = (rest, cp) # sts"
  using r
proof
  assume "r = asciiWords"
  with w rest show ?thesis by (simp add: kebab_word_def asciiWords_run)
next
  assume u: "r = unicodeWords"
  from w have "w \<noteq> []" "list_all (in_ranges lowerR) w \<or> list_all (in_ranges digitR) w"
    by (simp_all add: kebab_word_def)
  with rest u show ?thesis
    using unicodeWords_lower_run unicodeWords_digit_run by blast
qed

lemma match_from_word:
  assumes r: "r = unicodeWords \<or> r = asciiWords" and w: "kebab_word w" and rest: "at_break rest"
  shows "match_from n r (w @ rest) = w # match_from n r rest"
proof -
  from words_regex_run[OF assms] obtain cp sts
    where "ms n r (w @ rest, []) = (rest, cp) # sts" by blast
  moreover from w have "w \<noteq> []" by (simp add: kebab_word_def)
  ultimately show ?thesis by (subst match_from.simps) simp
qed

lemma match_from_hyphen:
  assumes r: "r = unicodeWords \<or> r = asciiWords"
  shows "match_from n r (0x2d # cs) = match_from n r cs"
  using r by (subst match_from.simps) (auto simp: ms_hyphen_fail)

lemma match_from_Nil:
  assumes r: "r = unicodeWords \<or> r = asciiWords"
  shows "match_from n r [] = []"
  using r by (subst match_from.simps) (auto simp: unicodeWords_def asciiWords_def Plus_def Opt_def)

lemma split_hyphen_ne: "split_hyphen s \<noteq> []"
  by (cases s) (auto split: list.splits)

lemma split_hyphen_cases:
  "split_hyphen s = [s] \<or>
   (\<exists>w s'. s = w @ 0x2d # s' \<and> split_hyphen s = w # split_hyphen s')"
proof (induction s)
  case Nil
  show ?case by simp
next
  case (Cons c s)
  show ?case
  proof (cases "c = 0x2d")
    case True
    then have "c # s = [] @ 0x2d # s \<and> split_hyphen (c # s) = [] # split_hyphen s" by simp
    then show ?thesis by blast
  next
    case False
    from Cons.IH show ?thesis
    proof
      assume "split_hyphen s = [s]"
      with False show ?thesis by simp
    next
      assume "\<exists>w s'. s = w @ 0x2d # s' \<and> split_hyphen s = w # split_hyphen s'"
      then obtain w s' where "s = w @ 0x2d # s'" "split_hyphen s = w # split_hyphen s'" by blast
      with False have "c # s = (c # w) @ 0x2d # s' \<and> split_hyphen (c # s) = (c # w) # split_hyphen s'"
        by simp
      then show ?thesis by blast
    qed
  qed
qed

lemma match_from_kebab:
  assumes r: "r = unicodeWords \<or> r = asciiWords"
  shows "list_all kebab_word (split_hyphen s) \<Longrightarrow> match_from n r s = split_hyphen s"
proof (induction s rule: length_induct)
  case (1 s)
  from split_hyphen_cases[of s] show ?case
  proof
    assume one: "split_hyphen s = [s]"
    with "1.prems" have "kebab_word s" by simp
    from match_from_word[OF r this, of "[]" n] one show ?thesis
      by (simp add: at_break_def match_from_Nil[OF r])
  next
    assume "\<exists>w s'. s = w @ 0x2d # s' \<and> split_hyphen s = w # split_hyphen s'"
    then obtain w s' where s: "s = w @ 0x2d # s'" and sp: "split_hyphen s = w # split_hyphen s'"
      by blast
    from "1.prems" sp have w: "kebab_word w" and rest: "list_all kebab_word (split_hyphen s')"
      by simp_all
    from s have "length s' < length s" by simp
    with "1.IH" rest have ih: "match_from n r s' = split_hyphen s'" by blast
    have "match_from n r (w @ 0x2d # s') = w # match_from n r (0x2d # s')"
      using r w by (rule match_from_word) (simp add: at_break_def)
    with ih s sp show ?thesis by (simp add: match_from_hyphen[OF r])
  qed
qed

lemma words_kebab:
  assumes "kebab_form s"
  shows "words (Given s) = split_hyphen s"
proof -
  let ?r = "if test hasUnicodeWord s then unicodeWords else asciiWords"
  have r: "?r = unicodeWords \<or> ?r = asciiWords" by simp
  from assms have all: "list_all kebab_word (split_hyphen s)" by (simp add: kebab_form_def)
  have m: "match_from (length s) ?r s = split_hyphen s"
    using r all by (rule match_from_kebab)
  from all have "s \<noteq> []" by (auto simp: kebab_word_def)
  moreover have "split_hyphen s \<noteq> []" by (rule split_hyphen_ne)
  ultimately show ?thesis
    using m by (simp add: match_g_def split: list.splits)
qed

lemma array_join_split_hyphen: "array_join [0x2d] (map Some (split_hyphen s)) = s"
proof (induction s)
  case Nil
  show ?case by simp
next
  case (Cons c s)
  show ?case
  proof (cases "c = 0x2d")
    case True
    obtain w ws where "split_hyphen s = w # ws"
      using split_hyphen_ne[of s] by (cases "split_hyphen s") auto
    with True Cons.IH show ?thesis by simp
  next
    case False
    obtain w ws where sp: "split_hyphen s = w # ws"
      using split_hyphen_ne[of s] by (cases "split_hyphen s") auto
    with False Cons.IH show ?thesis by (cases ws) simp_all
  qed
qed

lemma array_map_total: "array_map i (\<lambda>w i. Inr (g w)) ws = Inr (map g ws)"
  by (induction ws arbitrary: i) simp_all

lemma kebabCase_tokens:
  "kebabCase s = Inr (array_join (jstr ''-'') (map (\<lambda>w. Some (lowerCase w)) (words (Given s))))"
  by (simp add: kebabCase_def curry_fn_def caseStr_def mapWords_def array_map_total
           del: words.simps)

lemma lowerCase_kebab_word: "kebab_word w \<Longrightarrow> lowerCase w = w"
  by (auto simp: kebab_word_def lowerCase_def toLowerCase_def lower_unit_def list_all_iff
      lowerR_def digitR_def intro!: map_idI)

lemma kebabCase_fixpoint:
  assumes "kebab_form s"
  shows "kebabCase s = Inr s"
proof -
  from assms have "map (\<lambda>w. Some (lowerCase w)) (split_hyphen s) = map Some (split_hyphen s)"
    by (simp add: kebab_form_def list_all_iff lowerCase_kebab_word)
  moreover have "jstr ''-'' = [0x2d]" by (simp add: jstr_def)
  ultimately show ?thesis
    by (simp only: kebabCase_tokens words_kebab[OF assms] array_join_split_hyphen)
qed

subsection \<open>The wildcard compiler\<close>

lemma replace_from_Cls:
  "replace_from n (Cls rs) f cs = concat (map (\<lambda>c. if in_ranges rs c then f [c] else [c]) cs)"
proof (induction cs)
  case Nil
  show ?case by (subst replace_from.simps) simp
next
  case (Cons c cs)
  then show ?case by (subst replace_from.simps) simp
qed

lemma replace_g_Chr: "replace_g (Chr c) (\<lambda>m. rep) s = spec_subst c rep s"
proof -
  have "\<And>x. in_ranges [(c, c)] x = (x = c)" by auto
  then show ?thesis by (simp add: replace_g_def Chr_def replace_from_Cls spec_subst_def)
qed

lemma replace_g_meta: "replace_g (Cls metaR) (\<lambda>m. 0x5c # m) s = spec_escape s"
  by (simp add: replace_g_def replace_from_Cls spec_escape_def)

lemma wildcard_glob:
  assumes "exec rawRegex p = None"
  shows "wildcardToRegExp p flags =
           NewRegExp (Some (jstr ''^'' @ spec_subst 0x2b (jstr ''.+?'')
                              (spec_subst 0x2a (jstr ''.*?'') (spec_escape p)) @ jstr ''$''))
                     flags"
  using assms by (simp add: wildcardToRegExp_def replace_g_Chr replace_g_meta)

lemma spec_subst_append: "spec_subst c rep (a @ b) = spec_subst c rep a @ spec_subst c rep b"
  by (simp add: spec_subst_def)

lemma passes_glob_unit:
  "spec_subst 0x2b (jstr ''.+?'') (spec_subst 0x2a (jstr ''.*?'') (spec_escape p))
     = concat (map glob_unit p)"
proof (induction p)
  case Nil
  show ?case by (simp add: spec_subst_def spec_escape_def)
next
  case (Cons c p)
  have split: "spec_escape (c # p) = (if in_ranges metaR c then [0x5c, c] else [c]) @ spec_escape p"
    by (simp add: spec_escape_def)
  have one: "spec_subst 0x2b (jstr ''.+?'')
               (spec_subst 0x2a (jstr ''.*?'') (if in_ranges metaR c then [0x5c, c] else [c]))
             = glob_unit c"
    by (auto simp: spec_subst_def glob_unit_def metaR_def jstr_def)
  show ?case
    unfolding split spec_subst_append one using Cons.IH by simp
qed

lemma in_ranges_single: "in_ranges ((a, a) # rs) c = (c = a \<or> in_ranges rs c)"
  by auto

lemma metaR_iff:
  "in_ranges metaR c = (c \<in> {0x2d, 0x5b, 0x5d, 0x2f, 0x7b, 0x7d, 0x28, 0x29, 0x3f, 0x2e, 0x5c, 0x5e, 0x24, 0x7c})"
  unfolding metaR_def by (simp only: in_ranges_single in_ranges.simps(1)) blast

lemma syntaxR_iff:
  "in_ranges syntaxR c = (c \<in> {0x5e, 0x24, 0x5c, 0x2e, 0x2a, 0x2b, 0x3f, 0x28, 0x29, 0x5b, 0x5d, 0x7b, 0x7d, 0x7c})"
  unfolding syntaxR_def by (simp only: in_ranges_single in_ranges.simps(1)) blast

lemma parse_atoms_glob:
  "parse_atoms (concat (map glob_unit p) @ rest)
     = map_option ((@) (map glob_atom p)) (parse_atoms rest)"
proof (induction p)
  case Nil
  show ?case by (simp add: option.map_ident)
next
  case (Cons c p)
  let ?tail = "concat (map glob_unit p) @ rest"
  have step: "parse_atoms (glob_unit c @ ?tail) = map_option ((#) (glob_atom c)) (parse_atoms ?tail)"
  proof (cases "in_ranges metaR c")
    case True
    then have "c \<noteq> 0x2a" "c \<noteq> 0x2b" by (auto simp: metaR_iff)
    with True show ?thesis by (simp add: glob_unit_def glob_atom_def)
  next
    case False
    show ?thesis
    proof (cases "c = 0x2a \<or> c = 0x2b")
      case True
      with False show ?thesis by (auto simp: glob_unit_def glob_atom_def jstr_def)
    next
      case False
      with \<open>\<not> in_ranges metaR c\<close> have "\<not> in_ranges syntaxR c" "c \<noteq> 0x5c" "c \<noteq> 0x2e" "c \<noteq> 0x5e" "c \<noteq> 0x24"
        by (auto simp: metaR_iff syntaxR_iff)
      with False \<open>\<not> in_ranges metaR c\<close> show ?thesis by (simp add: glob_unit_def glob_atom_def)
    qed
  qed
  show ?case
    using step Cons.IH by (simp add: option.map_comp comp_def)
qed

lemma compile_source_glob:
  "compile_source (jstr ''^'' @ concat (map glob_unit p) @ jstr ''$'')
     = Some (foldr Seq (Bol # map glob_atom p @ [Eol]) Eps)"
proof -
  have e: "parse_atoms (jstr ''$'') = Some [Eol]" by (simp add: jstr_def syntaxR_def)
  have "parse_atoms (jstr ''^'' @ concat (map glob_unit p) @ jstr ''$'')
          = map_option ((#) Bol) (parse_atoms (concat (map glob_unit p) @ jstr ''$''))"
    by (simp add: jstr_def)
  also have "\<dots> = Some (Bol # map glob_atom p @ [Eol])"
    by (simp add: parse_atoms_glob e)
  finally show ?thesis by (simp add: compile_source_def)
qed

lemma concat_map_concat:
  "concat (map f (concat xss)) = concat (map (\<lambda>xs. concat (map f xs)) xss)"
  by (induction xss) simp_all

lemma ms_foldr_Seq:
  "ms n (foldr Seq as r) st = concat (map (ms n r) (ms n (foldr Seq as Eps) st))"
proof (induction as arbitrary: st)
  case Nil
  show ?case by simp
next
  case (Cons a as)
  have "ms n (foldr Seq (a # as) r) st = concat (map (ms n (foldr Seq as r)) (ms n a st))"
    by simp
  also have "\<dots> = concat (map (\<lambda>x. concat (map (ms n r) (ms n (foldr Seq as Eps) x))) (ms n a st))"
  proof -
    have "ms n (foldr Seq as r) = (\<lambda>x. concat (map (ms n r) (ms n (foldr Seq as Eps) x)))"
      by (rule ext) (rule Cons.IH)
    then show ?thesis by (simp only:)
  qed
  also have "\<dots> = concat (map (ms n r) (concat (map (ms n (foldr Seq as Eps)) (ms n a st))))"
    by (simp only: concat_map_concat map_map comp_def)
  also have "\<dots> = concat (map (ms n r) (ms n (foldr Seq (a # as) Eps) st))"
    by simp
  finally show ?case .
qed

lemma ms_Eol_Eps: "ms n (Seq Eol Eps) = (\<lambda>st. if fst st = [] then [st] else [])"
  by (rule ext) (case_tac st, simp)

lemma concat_map_if: "concat (map (\<lambda>x. if P x then [x] else []) xs) = filter P xs"
  by (induction xs) simp_all

lemma ms_then_Eol:
  "ms n (foldr Seq as (Seq Eol Eps)) st
     = filter (\<lambda>st'. fst st' = []) (ms n (foldr Seq as Eps) st)"
  by (subst ms_foldr_Seq) (simp only: ms_Eol_Eps concat_map_if)

lemma search_Bol_later: "length cs < n \<Longrightarrow> search n (Seq Bol r) cs = None"
proof (induction cs)
  case Nil
  then show ?case by simp
next
  case (Cons c cs)
  then show ?case by simp
qed

lemma test_anchored:
  "test (foldr Seq (Bol # as @ [Eol]) Eps) s
     = list_ex (\<lambda>st. fst st = []) (ms (length s) (foldr Seq as Eps) (s, []))"
proof -
  let ?n = "length s"
  let ?R = "foldr Seq as (Seq Eol Eps)"
  let ?hits = "filter (\<lambda>st'. fst st' = []) (ms ?n (foldr Seq as Eps) (s, []))"
  have shape: "foldr Seq (Bol # as @ [Eol]) Eps = Seq Bol ?R" by simp
  have whole: "ms ?n (Seq Bol ?R) (s, []) = ?hits"
    by (simp add: ms_then_Eol)
  have "(search ?n (Seq Bol ?R) s \<noteq> None) = (?hits \<noteq> [])"
  proof (cases s)
    case Nil
    with whole show ?thesis by (cases ?hits) simp_all
  next
    case (Cons c cs)
    then have "search ?n (Seq Bol ?R) cs = None" by (simp add: search_Bol_later)
    with Cons whole show ?thesis by (cases ?hits) simp_all
  qed
  then show ?thesis
    unfolding test_def shape by (simp add: list_ex_iff filter_empty_conv)
qed

lemma wildcard_test:
  assumes "exec rawRegex p = None"
  shows "regexp_test (wildcardToRegExp p None) s
           = Some (list_ex (\<lambda>st. fst st = []) (ms (length s) (glob_body p) (s, [])))"
proof -
  have "wildcardToRegExp p None
          = NewRegExp (Some (jstr ''^'' @ concat (map glob_unit p) @ jstr ''$'')) None"
    by (simp only: wildcard_glob[OF assms] passes_glob_unit)
  then show ?thesis
    by (simp only: regexp_test.simps compile_source_glob option.map test_anchored glob_body_def)
qed

subsection \<open>The shape of the tokens\<close>

lemma ms_eats:
  "st' \<in> set (ms n r st) \<Longrightarrow> \<exists>p. fst st = p @ fst st' \<and> list_all (eats r) p"
proof (induction n r st arbitrary: st' rule: ms.induct)
  case (1 n rs cs caps)
  then show ?case by (cases cs) (auto split: if_splits)
next
  case (2 n rs cs caps)
  then show ?case by (cases cs) (auto split: if_splits)
next
  case (3 n r1 r2 st)
  from "3.prems" obtain mid where mid: "mid \<in> set (ms n r1 st)" "st' \<in> set (ms n r2 mid)"
    by auto
  from "3.IH"(1)[OF mid(1)] obtain p where p: "fst st = p @ fst mid" "list_all (eats r1) p"
    by blast
  from "3.IH"(2)[OF mid(1) mid(2)] obtain q where q: "fst mid = q @ fst st'" "list_all (eats r2) q"
    by blast
  from p q have "fst st = (p @ q) @ fst st'" "list_all (eats (Seq r1 r2)) (p @ q)"
    by (auto simp: list_all_iff)
  then show ?case by blast
next
  case (4 n r1 r2 st)
  from "4.prems" have "st' \<in> set (ms n r1 st) \<or> st' \<in> set (ms n r2 st)" by simp
  then show ?case
  proof
    assume "st' \<in> set (ms n r1 st)"
    from "4.IH"(1)[OF this] show ?thesis by (auto simp: list_all_iff)
  next
    assume "st' \<in> set (ms n r2 st)"
    from "4.IH"(2)[OF this] show ?thesis by (auto simp: list_all_iff)
  qed
next
  case (5 n r st)
  from "5.prems" consider "st' = st"
    | mid where "mid \<in> set (ms n r st)" "length (fst mid) < length (fst st)"
        "st' \<in> set (ms n (Star r) mid)"
    by (subst (asm) ms.simps(5)) (auto split: if_splits)
  then show ?case
  proof cases
    case 1
    then have "fst st = [] @ fst st'" "list_all (eats (Star r)) []" by simp_all
    then show ?thesis by blast
  next
    case 2
    from "5.IH"(1)[OF 2(1)] obtain p where p: "fst st = p @ fst mid" "list_all (eats r) p"
      by blast
    from "5.IH"(2)[OF 2(1) 2(2) 2(3)] obtain q
      where q: "fst mid = q @ fst st'" "list_all (eats (Star r)) q" by blast
    from p q have "fst st = (p @ q) @ fst st'" "list_all (eats (Star r)) (p @ q)"
      by (auto simp: list_all_iff)
    then show ?thesis by blast
  qed
next
  case (6 n r st)
  from "6.prems" consider "st' = st"
    | mid where "mid \<in> set (ms n r st)" "length (fst mid) < length (fst st)"
        "st' \<in> set (ms n (LazyStar r) mid)"
    by (subst (asm) ms.simps(6)) (auto split: if_splits)
  then show ?case
  proof cases
    case 1
    then have "fst st = [] @ fst st'" "list_all (eats (LazyStar r)) []" by simp_all
    then show ?thesis by blast
  next
    case 2
    from "6.IH"(1)[OF 2(1)] obtain p where p: "fst st = p @ fst mid" "list_all (eats r) p"
      by blast
    from "6.IH"(2)[OF 2(1) 2(2) 2(3)] obtain q
      where q: "fst mid = q @ fst st'" "list_all (eats (LazyStar r)) q" by blast
    from p q have "fst st = (p @ q) @ fst st'" "list_all (eats (LazyStar r)) (p @ q)"
      by (auto simp: list_all_iff)
    then show ?thesis by blast
  qed
next
  case (7 n k r cs caps)
  from "7.prems" obtain mid where mid: "mid \<in> set (ms n r (cs, caps))" "fst st' = fst mid"
    by auto
  from "7.IH"[OF mid(1)] mid(2) show ?case by simp
next
  case (8 n r cs caps)
  from "8.prems" have "fst st' = cs" by (auto split: list.splits)
  then have "fst (cs, caps) = [] @ fst st'" "list_all (eats (Ahead r)) []" by simp_all
  then show ?case by blast
next
  case (9 n cs caps)
  from "9.prems" have "fst st' = cs" by (auto split: if_splits)
  then have "fst (cs, caps) = [] @ fst st'" "list_all (eats Bol) []" by simp_all
  then show ?case by blast
next
  case (10 n cs caps)
  from "10.prems" have "fst st' = cs" by (auto split: if_splits)
  then have "fst (cs, caps) = [] @ fst st'" "list_all (eats Eol) []" by simp_all
  then show ?case by blast
next
  case (11 n st)
  then have "fst st = [] @ fst st'" "list_all (eats Eps) []" by simp_all
  then show ?case by blast
qed

lemma match_from_tokens:
  assumes suffix: "\<And>p q. I (p @ q) \<Longrightarrow> I q"
    and tok: "\<And>p rest st. I (p @ rest) \<Longrightarrow> st \<in> set (ms n r (p @ rest, [])) \<Longrightarrow> fst st = rest \<Longrightarrow> P p"
    and cons: "consuming r"
  shows "I cs \<Longrightarrow> t \<in> set (match_from n r cs) \<Longrightarrow> P t"
proof (induction cs rule: length_induct)
  case (1 cs)
  show ?case
  proof (cases "ms n r (cs, [])")
    case Nil
    then have eq: "match_from n r cs = (case cs of [] \<Rightarrow> [] | _ # cs' \<Rightarrow> match_from n r cs')"
      by (subst match_from.simps) simp
    show ?thesis
    proof (cases cs)
      case Nil
      with eq "1.prems"(2) show ?thesis by simp
    next
      case (Cons c cs')
      with eq "1.prems"(2) have t: "t \<in> set (match_from n r cs')" by simp
      from "1.prems"(1) Cons have "I ([c] @ cs')" by simp
      then have "I cs'" by (rule suffix)
      moreover from Cons have "length cs' < length cs" by simp
      ultimately show ?thesis using "1.IH" t by blast
    qed
  next
    case (Cons st sts)
    obtain rest caps where st: "st = (rest, caps)" by (cases st)
    from Cons st have mem: "(rest, caps) \<in> set (ms n r (cs, []))" by simp
    from ms_consuming[OF cons mem] have lt: "length rest < length cs" by simp
    from ms_eats[OF mem] obtain p where p: "cs = p @ rest" by auto
    then have tk: "take (length cs - length rest) cs = p" by simp
    from "1.prems"(2) Cons st lt tk
    have "t = p \<or> t \<in> set (match_from n r rest)"
      by (subst (asm) match_from.simps) auto
    then show ?thesis
    proof
      assume "t = p"
      with tok[of p rest "(rest, caps)"] p mem "1.prems"(1) show ?thesis by simp
    next
      assume t: "t \<in> set (match_from n r rest)"
      from "1.prems"(1) p(1) have "I rest" using suffix by blast
      with "1.IH" lt t show ?thesis by blast
    qed
  qed
qed

lemma unicodeWords_match_shape:
  assumes "st \<in> set (ms n unicodeWords (p @ rest, []))" and "fst st = rest"
  shows "letters p \<or> digits p"
proof -
  let ?A = "Seq (Opt (Cls upperR)) (Seq (Plus (Cls lowerR))
              (Ahead (Alt (Cls breakR) (Alt (Cls upperR) Eol))))"
  let ?B = "Seq (Plus (Cls upperR))
              (Ahead (Alt (Cls breakR) (Alt (Seq (Cls upperR) (Cls lowerR)) Eol)))"
  let ?C = "Seq (Opt (Cls upperR)) (Plus (Cls lowerR))"
  let ?D = "Plus (Cls upperR)"
  let ?E = "Plus (Cls digitR)"
  let ?L = "Alt ?A (Alt ?B (Alt ?C ?D))"
  have split: "unicodeWords = Alt ?A (Alt ?B (Alt ?C (Alt ?D ?E)))"
    by (simp add: unicodeWords_def)
  from assms(1) have "st \<in> set (ms n ?L (p @ rest, [])) \<or> st \<in> set (ms n ?E (p @ rest, []))"
    unfolding split by auto
  then show ?thesis
  proof
    assume "st \<in> set (ms n ?L (p @ rest, []))"
    from ms_eats[OF this] assms(2) obtain q where q: "p @ rest = q @ rest" "list_all (eats ?L) q"
      by auto
    have e: "eats ?L = (\<lambda>c. in_ranges upperR c \<or> in_ranges lowerR c)"
      by (rule ext) (auto simp: Plus_def Opt_def)
    from q have "list_all (\<lambda>c. in_ranges upperR c \<or> in_ranges lowerR c) p"
      unfolding e by simp
    then show ?thesis by (simp add: letters_def)
  next
    assume "st \<in> set (ms n ?E (p @ rest, []))"
    from ms_eats[OF this] assms(2) obtain q where q: "p @ rest = q @ rest" "list_all (eats ?E) q"
      by auto
    have e: "eats ?E = in_ranges digitR"
      by (rule ext) (auto simp: Plus_def)
    from q have "list_all (in_ranges digitR) p"
      unfolding e by simp
    then show ?thesis by (simp add: digits_def)
  qed
qed

lemma unicodeWords_tokens:
  "t \<in> set (match_from n unicodeWords cs) \<Longrightarrow> letters t \<or> digits t"
  using match_from_tokens[where I = "\<lambda>_. True" and r = unicodeWords and n = n
      and P = "\<lambda>p. letters p \<or> digits p", OF _ _ consuming_unicodeWords]
    unicodeWords_match_shape by blast

lemma unmixed_suffix: "unmixed (p @ q) \<Longrightarrow> unmixed q"
proof (induction p)
  case Nil
  then show ?case by simp
next
  case (Cons a p)
  then show ?case by (cases "p @ q") simp_all
qed

lemma unmixed_prefix: "unmixed (p @ q) \<Longrightarrow> unmixed p"
proof (induction p rule: induct_list012)
  case (3 a b p)
  then show ?case by simp
qed simp_all

lemma plain_cases:
  "in_ranges plainR c \<Longrightarrow> c \<noteq> 0x20 \<Longrightarrow> in_ranges alphaR c \<or> in_ranges digitR c"
  by (auto simp: plainR_def alphaR_def digitR_def)

lemma alpha_letter: "in_ranges alphaR c \<Longrightarrow> in_ranges upperR c \<or> in_ranges lowerR c"
  by (auto simp: alphaR_def upperR_def lowerR_def)

lemma alpha_not_digit: "in_ranges alphaR c \<Longrightarrow> \<not> in_ranges digitR c"
  by (auto simp: alphaR_def digitR_def)

lemma unmixed_plain_homogeneous:
  assumes "unmixed p" and "list_all (in_ranges plainR) p" and "list_all (\<lambda>c. c \<noteq> 0x20) p"
  shows "letters p \<or> digits p"
  using assms
proof (induction p rule: induct_list012)
  case 1
  show ?case by (simp add: letters_def)
next
  case (2 a)
  then have "in_ranges alphaR a \<or> in_ranges digitR a" by (simp add: plain_cases)
  then show ?case using alpha_letter[of a] by (auto simp: letters_def digits_def)
next
  case (3 a b p)
  from "3.prems" have ih: "letters (b # p) \<or> digits (b # p)"
    by (intro "3.IH"(2)) simp_all
  from "3.prems"(2,3) have a: "in_ranges alphaR a \<or> in_ranges digitR a"
    by (simp add: plain_cases)
  from "3.prems"(2,3) have b: "in_ranges alphaR b \<or> in_ranges digitR b"
    by (simp add: plain_cases)
  from "3.prems"(1) have nm: "\<not> (in_ranges digitR a \<and> in_ranges alphaR b)"
    "\<not> (in_ranges alphaR a \<and> in_ranges digitR b)"
    by simp_all
  from a show ?case
  proof
    assume al: "in_ranges alphaR a"
    with nm b have "in_ranges alphaR b" by blast
    then have "\<not> in_ranges digitR b" by (rule alpha_not_digit)
    with ih have "letters (b # p)" by (auto simp: digits_def)
    moreover from al have "in_ranges upperR a \<or> in_ranges lowerR a" by (rule alpha_letter)
    ultimately show ?thesis by (simp add: letters_def)
  next
    assume dg: "in_ranges digitR a"
    with nm b have "in_ranges digitR b" by blast
    then have "\<not> in_ranges upperR b \<and> \<not> in_ranges lowerR b" by (rule digit_not_letter)
    with ih have "digits (b # p)" by (auto simp: letters_def)
    with dg show ?thesis by (simp add: digits_def)
  qed
qed

lemma ms_hasUnicodeWord_pair:
  assumes "ms n hasUnicodeWord (a # b # cs, caps) = []"
  shows "\<not> (in_ranges digitR a \<and> in_ranges alphaR b) \<and> \<not> (in_ranges alphaR a \<and> in_ranges digitR b)"
proof -
  let ?dl = "Seq (Cls [(0x30, 0x39)]) (Cls [(0x61, 0x7a), (0x41, 0x5a)])"
  let ?ld = "Seq (Cls [(0x61, 0x7a), (0x41, 0x5a)]) (Cls [(0x30, 0x39)])"
  from assms have "ms n ?dl (a # b # cs, caps) = [] \<and> ms n ?ld (a # b # cs, caps) = []"
    unfolding hasUnicodeWord_def by (simp only: ms.simps(4) append_is_Nil_conv)
  then show ?thesis
    unfolding digitR_def alphaR_def by (auto split: if_splits)
qed

lemma search_hasUnicodeWord_unmixed:
  "search n hasUnicodeWord cs = None \<Longrightarrow> unmixed cs"
proof (induction cs rule: induct_list012)
  case (3 a b cs)
  from "3.prems" have m: "ms n hasUnicodeWord (a # b # cs, []) = []"
    and s: "search n hasUnicodeWord (b # cs) = None"
    by (auto split: list.splits)
  from ms_hasUnicodeWord_pair[OF m] "3.IH"(2)[OF s] show ?case by simp
qed simp_all

lemma asciiWords_match_shape:
  assumes inv: "unmixed (p @ rest) \<and> list_all (in_ranges plainR) (p @ rest)"
    and mem: "st \<in> set (ms n asciiWords (p @ rest, []))" and fst: "fst st = rest"
  shows "letters p \<or> digits p"
proof -
  from ms_eats[OF mem] fst obtain q where q: "p @ rest = q @ rest" "list_all (eats asciiWords) q"
    by auto
  have "\<And>c. eats asciiWords c \<Longrightarrow> c \<noteq> 0x20"
    by (auto simp: asciiWords_def Plus_def)
  with q have "list_all (\<lambda>c. c \<noteq> 0x20) p" by (auto simp: list_all_iff)
  moreover from inv have "unmixed p" using unmixed_prefix by blast
  moreover from inv have "list_all (in_ranges plainR) p" by simp
  ultimately show ?thesis by (intro unmixed_plain_homogeneous)
qed

lemma asciiWords_tokens:
  assumes "unmixed cs" "list_all (in_ranges plainR) cs" "t \<in> set (match_from n asciiWords cs)"
  shows "letters t \<or> digits t"
proof -
  let ?I = "\<lambda>cs. unmixed cs \<and> list_all (in_ranges plainR) cs"
  have suffix: "\<And>p q. ?I (p @ q) \<Longrightarrow> ?I q" using unmixed_suffix by auto
  have tok: "\<And>p rest st. ?I (p @ rest) \<Longrightarrow> st \<in> set (ms n asciiWords (p @ rest, []))
               \<Longrightarrow> fst st = rest \<Longrightarrow> letters p \<or> digits p"
    by (rule asciiWords_match_shape)
  from assms have "?I cs" by simp
  from match_from_tokens[where I = ?I and P = "\<lambda>p. letters p \<or> digits p",
      OF suffix tok consuming_asciiWords this assms(3)]
  show ?thesis .
qed

lemma words_tokens_shape:
  assumes "t \<in> set (words a)"
  shows "letters t \<or> digits t"
proof (cases a)
  case (Given s)
  show ?thesis
  proof (cases "test hasUnicodeWord s")
    case True
    with assms Given have "t \<in> set (match_from (length s) unicodeWords s)"
      by (auto simp: match_g_def split: if_splits list.splits)
    then show ?thesis by (rule unicodeWords_tokens)
  next
    case False
    then have none: "search (length s) hasUnicodeWord s = None"
      unfolding test_def by blast
    from False assms Given have "t \<in> set (match_from (length s) asciiWords s)"
      by (auto simp: match_g_def split: if_splits list.splits)
    with search_hasUnicodeWord_unmixed[OF none] search_hasUnicodeWord_plain[OF none]
    show ?thesis by (rule asciiWords_tokens)
  qed
next
  case Absent
  with assms show ?thesis by simp
next
  case Null
  with assms show ?thesis by simp
qed

subsection \<open>The output of kebabCase\<close>

lemma lower_unit_letter:
  "in_ranges upperR c \<or> in_ranges lowerR c \<Longrightarrow> in_ranges lowerR (lower_unit c)"
  by (auto simp: lower_unit_def upperR_def lowerR_def)

lemma lower_unit_digit: "in_ranges digitR c \<Longrightarrow> lower_unit c = c"
  by (auto simp: lower_unit_def digitR_def)

lemma lowerCase_token_kebab_word:
  assumes "t \<noteq> []" and "letters t \<or> digits t"
  shows "kebab_word (lowerCase t)"
  using assms(2)
proof
  assume "letters t"
  then have "list_all (in_ranges lowerR) (lowerCase t)"
    by (simp add: letters_def lowerCase_def toLowerCase_def list_all_iff lower_unit_letter)
  with assms(1) show ?thesis by (simp add: kebab_word_def lowerCase_def toLowerCase_def)
next
  assume "digits t"
  then have "lowerCase t = t"
    by (auto simp: digits_def lowerCase_def toLowerCase_def list_all_iff lower_unit_digit
        intro!: map_idI)
  with \<open>digits t\<close> assms(1) show ?thesis by (simp add: kebab_word_def digits_def)
qed

lemma kebab_word_no_hyphen: "kebab_word w \<Longrightarrow> 0x2d \<notin> set w"
  by (auto simp: kebab_word_def list_all_iff lowerR_def digitR_def)

lemma split_hyphen_plain: "0x2d \<notin> set w \<Longrightarrow> split_hyphen w = [w]"
  by (induction w) auto

lemma split_hyphen_append:
  "0x2d \<notin> set w \<Longrightarrow> split_hyphen (w @ 0x2d # rest) = w # split_hyphen rest"
  by (induction w) auto

lemma split_hyphen_join:
  assumes "ws \<noteq> []" and "list_all (\<lambda>w. 0x2d \<notin> set w) ws"
  shows "split_hyphen (array_join [0x2d] (map Some ws)) = ws"
  using assms
proof (induction ws rule: induct_list012)
  case 1
  then show ?case by simp
next
  case (2 w)
  then show ?case by (simp add: split_hyphen_plain)
next
  case (3 w w' ws)
  then have "split_hyphen (array_join [0x2d] (map Some (w' # ws))) = w' # ws" by simp
  with "3.prems" show ?case by (simp add: split_hyphen_append)
qed

lemma kebabCase_output_form:
  assumes "words (Given s) \<noteq> []"
  shows "\<exists>t. kebabCase s = Inr t \<and> kebab_form t"
proof -
  let ?ws = "map lowerCase (words (Given s))"
  let ?t = "array_join [0x2d] (map Some ?ws)"
  have kw: "list_all kebab_word ?ws"
    unfolding list_all_iff
  proof
    fix w assume "w \<in> set ?ws"
    then obtain t where t: "t \<in> set (words (Given s))" and w: "w = lowerCase t"
      by (auto simp del: words.simps)
    from t have "t \<noteq> []" by (rule words_nonempty)
    moreover from t have "letters t \<or> digits t" by (rule words_tokens_shape)
    ultimately show "kebab_word w" unfolding w by (rule lowerCase_token_kebab_word)
  qed
  then have "list_all (\<lambda>w. 0x2d \<notin> set w) ?ws"
    unfolding list_all_iff using kebab_word_no_hyphen by blast
  moreover from assms have "?ws \<noteq> []" by (simp del: words.simps)
  ultimately have "split_hyphen ?t = ?ws" by (rule split_hyphen_join[rotated])
  with kw have "kebab_form ?t" by (simp add: kebab_form_def)
  moreover have "kebabCase s = Inr ?t"
    by (simp add: kebabCase_tokens jstr_def comp_def del: words.simps)
  ultimately show ?thesis by blast
qed

lemma kebabCase_idempotent:
  "\<exists>t. kebabCase s = Inr t \<and> kebabCase t = Inr t"
proof (cases "words (Given s) = []")
  case True
  then have "kebabCase s = Inr []" by (simp add: kebabCase_tokens del: words.simps)
  moreover have "kebabCase [] = Inr []" by (simp add: kebabCase_tokens)
  ultimately show ?thesis by simp
next
  case False
  from kebabCase_output_form[OF False] obtain t where "kebabCase s = Inr t" "kebab_form t"
    by blast
  with kebabCase_fixpoint[of t] show ?thesis by simp
qed

subsection \<open>Lower case of the tokens, the case table, and property reads\<close>

lemma lowerCase_explicit:
  "lowerCase t = map (\<lambda>c. if in_ranges upperR c then c + 32 else c) t"
  by (simp add: lowerCase_def toLowerCase_def lower_unit_def upperR_def)

lemma lowerCase_token_lower:
  assumes "t \<in> set (words a)"
  shows "list_all (\<lambda>c. in_ranges lowerR c \<or> in_ranges digitR c) (lowerCase t)"
proof -
  from assms have "letters t \<or> digits t" by (rule words_tokens_shape)
  then show ?thesis
  proof
    assume "letters t"
    then show ?thesis
      by (simp add: letters_def lowerCase_def toLowerCase_def list_all_iff lower_unit_letter)
  next
    assume "digits t"
    then show ?thesis
      by (simp add: digits_def lowerCase_def toLowerCase_def list_all_iff lower_unit_digit)
  qed
qed

lemma lower_or_digit_latin1: "in_ranges lowerR c \<or> in_ranges digitR c \<Longrightarrow> c < 0x100"
  by (auto simp: lowerR_def digitR_def)

lemma upper_units_latin1: "c < 0x100 \<Longrightarrow> upper_units up c = upper_units up' c"
  by (simp add: upper_units_def)

lemma lowerCase_token_hd:
  assumes "t \<in> set (words a)"
  shows "upper_units up (hd (lowerCase t)) = upper_units up' (hd (lowerCase t))"
proof -
  from assms have "t \<noteq> []" by (rule words_nonempty)
  then have ne: "lowerCase t \<noteq> []" by (rule lowerCase_nonempty)
  from lowerCase_token_lower[OF assms] ne
  have "in_ranges lowerR (hd (lowerCase t)) \<or> in_ranges digitR (hd (lowerCase t))"
    by (cases "lowerCase t") simp_all
  then have "hd (lowerCase t) < 0x100" by (rule lower_or_digit_latin1)
  then show ?thesis by (rule upper_units_latin1)
qed

lemma camelCase_table_free: "camelCase up s = camelCase up' s"
proof (cases "words (Given s)")
  case Nil
  then show ?thesis by (simp only: camelCase_tokens list.map list.case)
next
  case (Cons w ws)
  have "map (\<lambda>w. upper_units up (hd w) @ tl w) (map lowerCase ws)
          = map (\<lambda>w. upper_units up' (hd w) @ tl w) (map lowerCase ws)"
    unfolding map_map
  proof (rule map_cong[OF refl])
    fix t assume "t \<in> set ws"
    with Cons have "t \<in> set (words (Given s))" by simp
    from lowerCase_token_hd[OF this, of up up']
    show "((\<lambda>w. upper_units up (hd w) @ tl w) \<circ> lowerCase) t
            = ((\<lambda>w. upper_units up' (hd w) @ tl w) \<circ> lowerCase) t"
      by simp
  qed
  then show ?thesis by (simp only: camelCase_tokens Cons list.map list.case)
qed

lemma find_prop_own: "props key = Some v \<Longrightarrow> find_prop (JsObject props parent) key = Some v"
  by simp


subsection \<open>Evaluation\<close>

lemmas eval_simps =
  jstr_def ms.simps(5,6) split_from.simps match_from.simps replace_from.simps lex_string.simps
  parse_items.simps compile_Function_def template_def call_template_def
  split_def upt_rec templateRegex_def wsR_def Chr_def Plus_def Opt_def LazyPlus_def Dot_def
  lineTermR_def templateObject_def js_or_def prop_get_def optional_def object_literal_def
  Object_prototype_def
  wildcardToRegExp_def exec_def test_def replace_g_def rawRegex_def metaR_def compile_source_def
  syntaxR_def js_or_str_def glob_body_def glob_atom_def spec_escape_def spec_subst_def
  match_g_def hasUnicodeWord_def unicodeWords_def asciiWords_def upperR_def lowerR_def
  breakR_def digitR_def camelCase_def mapWords_def lowerCase_def toLowerCase_def lower_unit_def
  capitalize_def upper_units_def kebabCase_def snakeCase_def caseStr_def
  curry_fn_def kebab_form_def kebab_word_def word_forming_def

section \<open>The claims\<close>

text \<open>
  C2. The extended matcher, with its alternatives tried in the order of the source, splits
  \<^verbatim>\<open>XMLHttpRequest\<close> into \<^verbatim>\<open>XML\<close>, \<^verbatim>\<open>Http\<close>, \<^verbatim>\<open>Request\<close> and \<^verbatim>\<open>foo2bar\<close> into \<^verbatim>\<open>foo\<close>, \<^verbatim>\<open>2\<close>,
  \<^verbatim>\<open>bar\<close>: the run of capitals is cut off before the capitalised word that follows it, and
  the run of digits is kept apart from the letters around it.
\<close>

theorem words_acronym_and_digit_boundaries:
  "words (Given (jstr ''XMLHttpRequest'')) = map jstr [''XML'', ''Http'', ''Request'']
   \<and> words (Given (jstr ''foo2bar'')) = map jstr [''foo'', ''2'', ''bar'']"
  by (simp add: eval_simps)

text \<open>
  C4. \<open>camelCase\<close> never throws and returns the tokens of its input, each in lower case,
  the first one as it is and every later one with its first code unit in upper case,
  written one after the other without a separator. The lower case of a token has its
  capital letters 32 places up and holds lower-case letters and digits only; the result
  does not depend on the case table of the runtime beyond Latin-1. \<^verbatim>\<open>foo_bar\<close> becomes
  \<^verbatim>\<open>fooBar\<close>, \<^verbatim>\<open>foo-bar-baz\<close> becomes \<^verbatim>\<open>fooBarBaz\<close>, and so do inputs with capitals:
  \<^verbatim>\<open>Foo Bar\<close> and \<^verbatim>\<open>FOO_BAR\<close> become \<^verbatim>\<open>fooBar\<close>, \<^verbatim>\<open>XMLHttpRequest\<close> becomes \<^verbatim>\<open>xmlHttpRequest\<close>.
\<close>

theorem camelCase_lower_then_capitalize:
  "camelCase up s =
     Inr (concat (case map lowerCase (words (Given s)) of
                    [] \<Rightarrow> []
                  | w # ws \<Rightarrow> w # map (\<lambda>w. upper_units up (hd w) @ tl w) ws))
   \<and> (t \<in> set (words (Given s)) \<longrightarrow>
        lowerCase t = map (\<lambda>c. if in_ranges upperR c then c + 32 else c) t
        \<and> list_all (\<lambda>c. in_ranges lowerR c \<or> in_ranges digitR c) (lowerCase t))
   \<and> camelCase up s = camelCase up' s
   \<and> camelCase up (jstr ''foo_bar'') = Inr (jstr ''fooBar'')
   \<and> camelCase up (jstr ''foo-bar-baz'') = Inr (jstr ''fooBarBaz'')
   \<and> camelCase up (jstr ''Foo Bar'') = Inr (jstr ''fooBar'')
   \<and> camelCase up (jstr ''FOO_BAR'') = Inr (jstr ''fooBar'')
   \<and> camelCase up (jstr ''XMLHttpRequest'') = Inr (jstr ''xmlHttpRequest'')"
proof (intro conjI impI)
  show "camelCase up s =
     Inr (concat (case map lowerCase (words (Given s)) of
                    [] \<Rightarrow> []
                  | w # ws \<Rightarrow> w # map (\<lambda>w. upper_units up (hd w) @ tl w) ws))"
    by (rule camelCase_tokens)
  show "camelCase up s = camelCase up' s" by (rule camelCase_table_free)
  show "camelCase up (jstr ''foo_bar'') = Inr (jstr ''fooBar'')" by (simp add: eval_simps)
  show "camelCase up (jstr ''foo-bar-baz'') = Inr (jstr ''fooBarBaz'')" by (simp add: eval_simps)
  show "camelCase up (jstr ''Foo Bar'') = Inr (jstr ''fooBar'')" by (simp add: eval_simps)
  show "camelCase up (jstr ''FOO_BAR'') = Inr (jstr ''fooBar'')" by (simp add: eval_simps)
  show "camelCase up (jstr ''XMLHttpRequest'') = Inr (jstr ''xmlHttpRequest'')"
    by (simp add: eval_simps)
next
  assume "t \<in> set (words (Given s))"
  then show "list_all (\<lambda>c. in_ranges lowerR c \<or> in_ranges digitR c) (lowerCase t)"
    by (rule lowerCase_token_lower)
  show "lowerCase t = map (\<lambda>c. if in_ranges upperR c then c + 32 else c) t"
    by (rule lowerCase_explicit)
qed

theorem camelCase_lower_then_capitalize_witness:
  "jstr ''BAR'' \<in> set (words (Given (jstr ''foo BAR'')))
   \<and> lowerCase (jstr ''BAR'') = jstr ''bar''
   \<and> list_all (\<lambda>c. in_ranges lowerR c \<or> in_ranges digitR c) (lowerCase (jstr ''BAR''))
   \<and> camelCase (\<lambda>c. [c]) (jstr ''foo BAR'') = Inr (jstr ''fooBar'')"
proof -
  have h: "jstr ''BAR'' \<in> set (words (Given (jstr ''foo BAR'')))" by (simp add: eval_simps)
  have l: "map (\<lambda>c. if in_ranges upperR c then c + 32 else c) (jstr ''BAR'') = jstr ''bar''"
    by (simp add: eval_simps)
  have c: "concat (case map lowerCase (words (Given (jstr ''foo BAR''))) of
                    [] \<Rightarrow> []
                  | w # ws \<Rightarrow> w # map (\<lambda>w. upper_units (\<lambda>c. [c]) (hd w) @ tl w) ws)
           = jstr ''fooBar''"
    by (simp add: eval_simps)
  note inst = camelCase_lower_then_capitalize
         [of "\<lambda>c. [c]" "jstr ''foo BAR''" "jstr ''BAR''" "\<lambda>c. [c]"]
  from inst h have 1: "lowerCase (jstr ''BAR'')
                         = map (\<lambda>c. if in_ranges upperR c then c + 32 else c) (jstr ''BAR'')"
    and 2: "list_all (\<lambda>c. in_ranges lowerR c \<or> in_ranges digitR c) (lowerCase (jstr ''BAR''))"
    by blast+
  from 1 l have 3: "lowerCase (jstr ''BAR'') = jstr ''bar''" by (simp only:)
  from inst c have 4: "camelCase (\<lambda>c. [c]) (jstr ''foo BAR'') = Inr (jstr ''fooBar'')"
    by (simp only:)
  from h 3 2 4 show ?thesis by blast
qed

text \<open>
  C6. \<open>words\<close> returns the empty sequence, and no error, for a missing argument, for
  \<^verbatim>\<open>null\<close>, for the empty string, and for every string in which no code unit is a letter
  of the matcher's letter classes or a digit.
\<close>

theorem words_absent_or_wordless:
  "words Absent = [] \<and> words Null = [] \<and> words (Given []) = []
   \<and> (list_all (\<lambda>c. \<not> word_forming c) s \<longrightarrow> words (Given s) = [])"
  using words_none by simp

theorem words_absent_or_wordless_witness:
  "list_all (\<lambda>c. \<not> word_forming c) (jstr ''- _ !'') \<and> words (Given (jstr ''- _ !'')) = []"
proof -
  have h: "list_all (\<lambda>c. \<not> word_forming c) (jstr ''- _ !'')" by (simp add: eval_simps)
  with words_absent_or_wordless [of "jstr ''- _ !''"] show ?thesis by blast
qed

text \<open>
  C9. On a string that is not empty \<open>capitalize\<close> puts the first code unit in upper case
  and leaves the rest as it is; on the empty string it fails, and that is the only
  string on which it fails. A first code unit that is a lower-case letter of Latin-1
  with a capital in Latin-1 goes 32 places down; beyond Latin-1 the first code unit is
  replaced by what the case table of the runtime gives for it. \<^verbatim>\<open>fooBar\<close> becomes
  \<^verbatim>\<open>FooBar\<close>, \<^verbatim>\<open>Foo bar\<close> stays, and the sharp s in front of \<^verbatim>\<open>a\<close> gives \<^verbatim>\<open>SSa\<close>.
\<close>

theorem capitalize_first_only:
  "(s \<noteq> [] \<longrightarrow> capitalize up s = Inr (upper_units up (hd s) @ tl s))
   \<and> capitalize up [] = Inl TypeError
   \<and> ((\<exists>e. capitalize up s = Inl e) \<longleftrightarrow> s = [])
   \<and> (in_ranges [(0x61, 0x7a), (0xe0, 0xf6), (0xf8, 0xfe)] c \<longrightarrow>
        capitalize up (c # cs) = Inr ((c - 32) # cs))
   \<and> (0x100 \<le> d \<longrightarrow> capitalize up (d # cs) = Inr (up d @ cs))
   \<and> capitalize up (jstr ''fooBar'') = Inr (jstr ''FooBar'')
   \<and> capitalize up (jstr ''Foo bar'') = Inr (jstr ''Foo bar'')
   \<and> capitalize up (0xdf # jstr ''a'') = Inr (jstr ''SSa'')"
proof (intro conjI impI)
  show "capitalize up [] = Inl TypeError" by (simp add: capitalize_def)
  show "(\<exists>e. capitalize up s = Inl e) \<longleftrightarrow> s = []"
    by (cases s) (simp_all add: capitalize_def)
  show "capitalize up (jstr ''fooBar'') = Inr (jstr ''FooBar'')" by (simp add: eval_simps)
  show "capitalize up (jstr ''Foo bar'') = Inr (jstr ''Foo bar'')" by (simp add: eval_simps)
  show "capitalize up (0xdf # jstr ''a'') = Inr (jstr ''SSa'')" by (simp add: eval_simps)
next
  assume "s \<noteq> []"
  then show "capitalize up s = Inr (upper_units up (hd s) @ tl s)"
    by (rule capitalize_nonempty)
next
  assume "in_ranges [(0x61, 0x7a), (0xe0, 0xf6), (0xf8, 0xfe)] c"
  then show "capitalize up (c # cs) = Inr ((c - 32) # cs)"
    by (simp add: capitalize_Cons upper_units_def)
next
  assume "0x100 \<le> d"
  then show "capitalize up (d # cs) = Inr (up d @ cs)"
    by (simp add: capitalize_Cons upper_units_def)
qed

theorem capitalize_first_only_witness:
  "jstr ''bar'' \<noteq> []
   \<and> capitalize (\<lambda>c. if c = 0x101 then [0x100] else [c]) (jstr ''bar'') = Inr (jstr ''Bar'')
   \<and> in_ranges [(0x61, 0x7a), (0xe0, 0xf6), (0xf8, 0xfe)] 0x62
   \<and> capitalize (\<lambda>c. if c = 0x101 then [0x100] else [c]) (0x62 # jstr ''ar'')
       = Inr (0x42 # jstr ''ar'')
   \<and> (0x100 :: nat) \<le> 0x101
   \<and> capitalize (\<lambda>c. if c = 0x101 then [0x100] else [c]) (0x101 # jstr ''ar'')
       = Inr (0x100 # jstr ''ar'')"
proof -
  let ?up = "\<lambda>c::nat. if c = 0x101 then [0x100] else [c::nat]"
  have h: "jstr ''bar'' \<noteq> []" by (simp add: jstr_def)
  have r: "in_ranges [(0x61, 0x7a), (0xe0, 0xf6), (0xf8, 0xfe)] (0x62 :: nat)" by simp
  have e: "upper_units ?up (hd (jstr ''bar'')) @ tl (jstr ''bar'') = jstr ''Bar''"
    by (simp add: eval_simps)
  from capitalize_first_only [of "jstr ''bar''" ?up "0x62" "jstr ''ar''" "0x101"] h r e
  show ?thesis by simp
qed

text \<open>
  C10. Every token that \<open>words\<close> returns is a string that is not empty, whatever the
  input and whichever matcher is chosen; so is its lower case, on which \<open>capitalize\<close>
  therefore does not fail, and \<open>camelCase\<close> never ends in an error.
\<close>

theorem words_tokens_nonempty:
  "(t \<in> set (words a) \<longrightarrow>
      t \<noteq> [] \<and> lowerCase t \<noteq> [] \<and> (\<forall>e. capitalize up (lowerCase t) \<noteq> Inl e))
   \<and> (\<forall>e. camelCase up s \<noteq> Inl e)"
proof (intro conjI impI)
  assume t: "t \<in> set (words a)"
  then show "t \<noteq> []" by (rule words_nonempty)
  then show l: "lowerCase t \<noteq> []" by (rule lowerCase_nonempty)
  then show "\<forall>e. capitalize up (lowerCase t) \<noteq> Inl e" by (simp add: capitalize_nonempty)
next
  show "\<forall>e. camelCase up s \<noteq> Inl e" by (simp add: camelCase_tokens del: words.simps)
qed

theorem words_tokens_nonempty_witness:
  "jstr ''Bar'' \<in> set (words (Given (jstr ''fooBar'')))
   \<and> jstr ''Bar'' \<noteq> [] \<and> lowerCase (jstr ''Bar'') \<noteq> []
   \<and> (\<forall>e. capitalize (\<lambda>c. [c]) (lowerCase (jstr ''Bar'')) \<noteq> Inl e)
   \<and> (\<forall>e. camelCase (\<lambda>c. [c]) (jstr ''fooBar'') \<noteq> Inl e)"
proof -
  have h: "jstr ''Bar'' \<in> set (words (Given (jstr ''fooBar'')))" by (simp add: eval_simps)
  with words_tokens_nonempty
         [of "jstr ''Bar''" "Given (jstr ''fooBar'')" "\<lambda>c. [c]" "jstr ''fooBar''"]
  show ?thesis by blast
qed

text \<open>
  C8. \<open>kebabCase\<close> writes the tokens of its input in lower case with a hyphen between
  them. A string that is in hyphen-separated lower-case word form already is returned
  as it is, so applying \<open>kebabCase\<close> to the result again changes nothing. The result of
  \<open>kebabCase\<close> on any input with a token is in that form, and applying \<open>kebabCase\<close> to any
  result returns it unchanged.
\<close>

theorem kebabCase_idempotent_on_kebab_form:
  "(kebab_form s \<longrightarrow>
      kebabCase s = Inr s \<and> (\<exists>t. kebabCase s = Inr t \<and> kebabCase t = kebabCase s))
   \<and> (\<exists>t. kebabCase u = Inr t \<and> kebabCase t = Inr t
            \<and> (words (Given u) \<noteq> [] \<longrightarrow> kebab_form t))
   \<and> kebabCase u =
       Inr (array_join (jstr ''-'') (map (\<lambda>w. Some (lowerCase w)) (words (Given u))))"
proof (intro conjI impI)
  assume "kebab_form s"
  then show "kebabCase s = Inr s" by (rule kebabCase_fixpoint)
  then show "\<exists>t. kebabCase s = Inr t \<and> kebabCase t = kebabCase s" by simp
next
  show "\<exists>t. kebabCase u = Inr t \<and> kebabCase t = Inr t
            \<and> (words (Given u) \<noteq> [] \<longrightarrow> kebab_form t)"
  proof (cases "words (Given u) = []")
    case True
    with kebabCase_idempotent[of u] show ?thesis by blast
  next
    case False
    from kebabCase_output_form[OF False] obtain t where t: "kebabCase u = Inr t" "kebab_form t"
      by blast
    with kebabCase_fixpoint[of t] show ?thesis by simp
  qed
next
  show "kebabCase u =
       Inr (array_join (jstr ''-'') (map (\<lambda>w. Some (lowerCase w)) (words (Given u))))"
    by (rule kebabCase_tokens)
qed

theorem kebabCase_idempotent_on_kebab_form_witness:
  "kebab_form (jstr ''foo-bar-2'')
   \<and> kebabCase (jstr ''foo-bar-2'') = Inr (jstr ''foo-bar-2'')
   \<and> (\<exists>t. kebabCase (jstr ''foo-bar-2'') = Inr t \<and> kebabCase t = kebabCase (jstr ''foo-bar-2''))
   \<and> words (Given (jstr ''fooBar'')) \<noteq> []
   \<and> (\<exists>t. kebabCase (jstr ''fooBar'') = Inr t \<and> kebabCase t = Inr t \<and> kebab_form t)"
proof -
  have h: "kebab_form (jstr ''foo-bar-2'')" by (simp add: eval_simps)
  have w: "words (Given (jstr ''fooBar'')) \<noteq> []" by (simp add: eval_simps)
  from kebabCase_idempotent_on_kebab_form [of "jstr ''foo-bar-2''" "jstr ''fooBar''"] h w
  show ?thesis by blast
qed

text \<open>
  C5. For a glob that the pattern of the raw form does not match, \<open>wildcardToRegExp\<close>
  makes a pattern from the source \<^verbatim>\<open>^\<close>, the glob with its metacharacters escaped and then
  its \<^verbatim>\<open>*\<close> and \<^verbatim>\<open>+\<close> replaced by \<^verbatim>\<open>.*?\<close> and \<^verbatim>\<open>.+?\<close>, and \<^verbatim>\<open>$\<close>, with the flags it was given.
  Made without flags, that pattern accepts a string exactly when the glob matches the
  whole of it. \<^verbatim>\<open>hel*o\<close> accepts \<^verbatim>\<open>hello\<close>, \<^verbatim>\<open>helzzzzo\<close> and \<^verbatim>\<open>helo\<close>, and rejects \<^verbatim>\<open>xhello\<close>.
\<close>

theorem wildcardToRegExp_glob_anchored:
  "(exec rawRegex p = None \<longrightarrow>
      wildcardToRegExp p flags =
        NewRegExp (Some (jstr ''^'' @ spec_subst 0x2b (jstr ''.+?'')
                           (spec_subst 0x2a (jstr ''.*?'') (spec_escape p)) @ jstr ''$''))
                  flags
      \<and> regexp_test (wildcardToRegExp p None) s =
          Some (list_ex (\<lambda>st. fst st = []) (ms (length s) (glob_body p) (s, []))))
   \<and> regexp_test (wildcardToRegExp (jstr ''hel*o'') None) (jstr ''hello'') = Some True
   \<and> regexp_test (wildcardToRegExp (jstr ''hel*o'') None) (jstr ''helzzzzo'') = Some True
   \<and> regexp_test (wildcardToRegExp (jstr ''hel*o'') None) (jstr ''helo'') = Some True
   \<and> regexp_test (wildcardToRegExp (jstr ''hel*o'') None) (jstr ''xhello'') = Some False"
proof (intro conjI impI)
  assume h: "exec rawRegex p = None"
  then show "wildcardToRegExp p flags =
        NewRegExp (Some (jstr ''^'' @ spec_subst 0x2b (jstr ''.+?'')
                           (spec_subst 0x2a (jstr ''.*?'') (spec_escape p)) @ jstr ''$''))
                  flags"
    by (rule wildcard_glob)
  from h show "regexp_test (wildcardToRegExp p None) s =
          Some (list_ex (\<lambda>st. fst st = []) (ms (length s) (glob_body p) (s, [])))"
    by (rule wildcard_test)
next
  show "regexp_test (wildcardToRegExp (jstr ''hel*o'') None) (jstr ''hello'') = Some True"
    by (simp add: eval_simps)
  show "regexp_test (wildcardToRegExp (jstr ''hel*o'') None) (jstr ''helzzzzo'') = Some True"
    by (simp add: eval_simps)
  show "regexp_test (wildcardToRegExp (jstr ''hel*o'') None) (jstr ''helo'') = Some True"
    by (simp add: eval_simps)
  show "regexp_test (wildcardToRegExp (jstr ''hel*o'') None) (jstr ''xhello'') = Some False"
    by (simp add: eval_simps)
qed

theorem wildcardToRegExp_glob_anchored_witness:
  "exec rawRegex (jstr ''a.b+'') = None
   \<and> wildcardToRegExp (jstr ''a.b+'') (Some (jstr ''i'')) =
       NewRegExp (Some (jstr ''^a'' @ [0x5c] @ jstr ''.b.+?$'')) (Some (jstr ''i''))
   \<and> regexp_test (wildcardToRegExp (jstr ''a.b+'') None) (jstr ''a.bcd'') = Some True"
proof -
  have h: "exec rawRegex (jstr ''a.b+'') = None" by (simp add: eval_simps)
  have e: "jstr ''^'' @ spec_subst 0x2b (jstr ''.+?'')
             (spec_subst 0x2a (jstr ''.*?'') (spec_escape (jstr ''a.b+''))) @ jstr ''$''
           = jstr ''^a'' @ [0x5c] @ jstr ''.b.+?$''" by (simp add: eval_simps)
  have t: "list_ex (\<lambda>st. fst st = [])
             (ms (length (jstr ''a.bcd'')) (glob_body (jstr ''a.b+'')) (jstr ''a.bcd'', []))"
    by (simp add: eval_simps)
  from wildcardToRegExp_glob_anchored [of "jstr ''a.b+''" "Some (jstr ''i'')" "jstr ''a.bcd''"] h e t
  show ?thesis by simp
qed




text \<open>
  C1. The code at the input of the claim: for \<^verbatim>\<open>Hello ${ name }!\<close> the compiled function
  calls the callback with the key \<^verbatim>\<open> name \<close>, the white space inside the braces included,
  which the object \<^verbatim>\<open>{name: "Bob"}\<close> does not have; the joined result is \<^verbatim>\<open>Hello !\<close> and not
  \<^verbatim>\<open>Hello Bob!\<close>. Without the white space the key is \<^verbatim>\<open>name\<close> and the result \<^verbatim>\<open>Hello Bob!\<close>.
\<close>

theorem template_key_keeps_whitespace:
  "template (jstr ''Hello ${ name }!'')
     = Inr [Lit (jstr ''Hello ''), Call (jstr '' name ''), Lit (jstr ''!'')]
   \<and> jsval_join []
         (call_template [Lit (jstr ''Hello ''), Call (jstr '' name ''), Lit (jstr ''!'')]
            (templateObject (object_literal [(jstr ''name'', JStr (jstr ''Bob''))]) None))
       = Some (jstr ''Hello !'')
   \<and> template (jstr ''Hello ${name}!'')
       = Inr [Lit (jstr ''Hello ''), Call (jstr ''name''), Lit (jstr ''!'')]
   \<and> jsval_join []
         (call_template [Lit (jstr ''Hello ''), Call (jstr ''name''), Lit (jstr ''!'')]
            (templateObject (object_literal [(jstr ''name'', JStr (jstr ''Bob''))]) None))
       = Some (jstr ''Hello Bob!'')"
proof (intro conjI)
  show "template (jstr ''Hello ${ name }!'')
     = Inr [Lit (jstr ''Hello ''), Call (jstr '' name ''), Lit (jstr ''!'')]"
    by (simp add: eval_simps)
  show "jsval_join []
         (call_template [Lit (jstr ''Hello ''), Call (jstr '' name ''), Lit (jstr ''!'')]
            (templateObject (object_literal [(jstr ''name'', JStr (jstr ''Bob''))]) None))
       = Some (jstr ''Hello !'')"
    by (simp add: eval_simps)
  show "template (jstr ''Hello ${name}!'')
       = Inr [Lit (jstr ''Hello ''), Call (jstr ''name''), Lit (jstr ''!'')]"
    by (simp add: eval_simps)
  show "jsval_join []
         (call_template [Lit (jstr ''Hello ''), Call (jstr ''name''), Lit (jstr ''!'')]
            (templateObject (object_literal [(jstr ''name'', JStr (jstr ''Bob''))]) None))
       = Some (jstr ''Hello Bob!'')"
    by (simp add: eval_simps)
qed

text \<open>
  C3. The code at four templates whose literal text does not pass through: a literal
  with a line feed does not compile; in the literal \<^verbatim>\<open>C:\temp\<close> the backslash and the \<^verbatim>\<open>t\<close>
  come back as a tab; a literal with two double quotes leaves a body that is not the list
  of segments; and the literal \<^verbatim>\<open>$5 for \<close>, which starts with \<^verbatim>\<open>$\<close>, is taken for the mark of
  a placeholder, so that the callback is called with \<^verbatim>\<open>${name}\<close> and the key \<^verbatim>\<open>name\<close> comes back
  as a literal. Adjacent placeholders do keep the empty literals around them.
\<close>

theorem template_literals_not_verbatim:
  "template (jstr ''a'' @ [0x0a] @ jstr ''b'') = Inl SyntaxError
   \<and> template (jstr ''C:'' @ [0x5c] @ jstr ''temp'')
       = Inr [Lit (jstr ''C:'' @ [0x09] @ jstr ''emp'')]
   \<and> template (jstr ''say '' @ [0x22] @ jstr ''hi'' @ [0x22]) = Inl OtherProgram
   \<and> template (jstr ''$5 for ${name}'')
       = Inr [Call (jstr ''${name}''), Lit (jstr ''name''), Lit []]
   \<and> template (jstr ''${a}${b}'')
       = Inr [Lit [], Call (jstr ''a''), Lit [], Call (jstr ''b''), Lit []]"
proof (intro conjI)
  show "template (jstr ''a'' @ [0x0a] @ jstr ''b'') = Inl SyntaxError"
    by (simp add: eval_simps)
  show "template (jstr ''C:'' @ [0x5c] @ jstr ''temp'')
       = Inr [Lit (jstr ''C:'' @ [0x09] @ jstr ''emp'')]"
    by (simp add: eval_simps)
  show "template (jstr ''say '' @ [0x22] @ jstr ''hi'' @ [0x22]) = Inl OtherProgram"
    by (simp add: eval_simps)
  show "template (jstr ''$5 for ${name}'')
       = Inr [Call (jstr ''${name}''), Lit (jstr ''name''), Lit []]"
    by (simp add: eval_simps)
  show "template (jstr ''${a}${b}'')
       = Inr [Lit [], Call (jstr ''a''), Lit [], Call (jstr ''b''), Lit []]"
    by (simp add: eval_simps)
qed

end
